theory Spec2Isabelle
  imports Main
begin

section \<open>Data model\<close>

text \<open>
  The collector of \<^verbatim>\<open>src/index.ts\<close> drives an external pager
  (package \<^verbatim>\<open>athena-query-result-pager\<close>). A page is the pager's
  \<^verbatim>\<open>PageResult<T>\<close>: the rows, an optional continuation token and a row count.
\<close>

record 'a PageResult =
  rows :: "'a list"
  nextToken :: "string option"
  rowCount :: nat

text \<open>\<^verbatim>\<open>CollectResult<T>\<close> and the result object of \<^verbatim>\<open>processBatches\<close>.\<close>

record 'a CollectResult =
  rows :: "'a list"
  totalRows :: nat
  pageCount :: nat
  truncated :: bool

record BatchResult =
  totalRows :: nat
  pageCount :: nat

text \<open>
  The \<^verbatim>\<open>this.options\<close> the constructor leaves behind; \<open>None\<close> is a property whose
  value is \<^verbatim>\<open>undefined\<close>. \<^verbatim>\<open>maxRows\<close> is a count (the interface documents it as a
  non-negative integer), so it is a natural number here. \<^verbatim>\<open>retryCount\<close> and
  \<^verbatim>\<open>retryDelayMs\<close> are integers; they are read with \<^verbatim>\<open>!\<close> and may still be
  \<^verbatim>\<open>undefined\<close>, or negative. A callback either returns (\<open>None\<close>) or throws an error value (\<open>Some e\<close>).
\<close>

record ('a, 'e) CollectorOptions =
  maxRows :: "nat option"
  onPage :: "('a PageResult \<Rightarrow> nat \<Rightarrow> 'e option) option"
  retryCount :: "int option"
  retryDelayMs :: "int option"

text \<open>
  A property of the options object passed to the constructor: left out, present with the
  value \<^verbatim>\<open>undefined\<close>, or present with a value.
\<close>

datatype 'v property = Omitted | Undefined | Given 'v

text \<open>
  The constructor builds
  \<^verbatim>\<open>{ maxRows: options.maxRows, onPage: options.onPage, retryCount: options.retryCount ?? 0,
  retryDelayMs: options.retryDelayMs ?? 1000, ...options }\<close>. The spread comes last and copies
  every property that is present, also one whose value is \<^verbatim>\<open>undefined\<close>: it overwrites
  the two defaults, which therefore only stand when the property is left out. The
  pager-specific options are passed on to the pager and play no part here.
\<close>

definition spreadOver :: "'v option \<Rightarrow> 'v property \<Rightarrow> 'v option" where
  "spreadOver v prop = (case prop of Omitted \<Rightarrow> v | Undefined \<Rightarrow> None | Given x \<Rightarrow> Some x)"

definition valueOf :: "'v property \<Rightarrow> 'v option" where
  "valueOf prop = (case prop of Given x \<Rightarrow> Some x | _ \<Rightarrow> None)"

definition AthenaQueryResultCollector ::
  "nat property \<Rightarrow> ('a PageResult \<Rightarrow> nat \<Rightarrow> 'e option) property \<Rightarrow> int property
    \<Rightarrow> int property \<Rightarrow> ('a, 'e) CollectorOptions" where
  "AthenaQueryResultCollector optMaxRows optOnPage optRetryCount optRetryDelayMs =
     \<lparr> maxRows = spreadOver (valueOf optMaxRows) optMaxRows,
       onPage = spreadOver (valueOf optOnPage) optOnPage,
       retryCount =
         spreadOver (Some (case valueOf optRetryCount of None \<Rightarrow> 0 | Some r \<Rightarrow> r))
           optRetryCount,
       retryDelayMs =
         spreadOver (Some (case valueOf optRetryDelayMs of None \<Rightarrow> 1000 | Some d \<Rightarrow> d))
           optRetryDelayMs \<rparr>"

section \<open>Effects\<close>

text \<open>
  Every call that leaves the collector is recorded, in program order: the pager's
  \<^verbatim>\<open>reset()\<close> and \<^verbatim>\<open>fetchPageWith(queryExecutionId, rowParser, nextToken)\<close>,
  the retry \<^verbatim>\<open>sleep(ms)\<close>, the \<^verbatim>\<open>onPage\<close> and \<^verbatim>\<open>batchProcessor\<close>
  callbacks with their arguments, and each \<^verbatim>\<open>yield\<close> of the generator.
\<close>

datatype 'a event =
    Reset
  | FetchPageWith string "string option"
  | Sleep "int option"
  | OnPage "'a PageResult" nat
  | BatchProcessor "'a list" nat
  | Yield 'a

text \<open>
  How a call ends: it returns a value, it throws an error value, it throws
  \<^verbatim>\<open>undefined\<close> (the \<^verbatim>\<open>throw lastError\<close> of a retry loop whose body never
  assigned \<^verbatim>\<open>lastError\<close>), or it is still awaiting a fetch that the given pager
  behaviour does not answer.
\<close>

datatype ('e, 'v) outcome = Returned 'v | Threw 'e | ThrewUndefined | Pending

text \<open>
  The pager is a parameter: the answers it gives to the successive calls of
  \<^verbatim>\<open>fetchPageWith\<close>, a rejection (\<open>Inl\<close>) or a page of raw rows (\<open>Inr\<close>). The pager
  applies the caller's row parser to every row of the page it returns. When the answers
  run out the call stays pending.
\<close>

type_synonym ('r, 'e) pager = "('e + 'r PageResult) list"

definition parsePage :: "('r \<Rightarrow> 'a) \<Rightarrow> 'r PageResult \<Rightarrow> 'a PageResult" where
  "parsePage rowParser page =
     \<lparr> PageResult.rows = map rowParser (PageResult.rows page),
       nextToken = nextToken page,
       rowCount = rowCount page \<rparr>"

fun fetchPageWith ::
  "('r, 'e) pager \<Rightarrow> ('r \<Rightarrow> 'a) \<Rightarrow> ('e + 'a PageResult) option \<times> ('r, 'e) pager" where
  "fetchPageWith [] rowParser = (None, [])"
| "fetchPageWith (Inl err # rest) rowParser = (Some (Inl err), rest)"
| "fetchPageWith (Inr page # rest) rowParser = (Some (Inr (parsePage rowParser page)), rest)"

text \<open>JavaScript truthiness of \<^verbatim>\<open>nextToken\<close>: \<^verbatim>\<open>undefined\<close> and the empty string are falsy.\<close>

definition truthy :: "string option \<Rightarrow> bool" where
  "truthy token = (case token of None \<Rightarrow> False | Some s \<Rightarrow> s \<noteq> [])"

text \<open>\<^verbatim>\<open>xs.slice(0, end)\<close> for an integer \<^verbatim>\<open>end\<close>; a negative end counts from the back.\<close>

definition slice0 :: "'a list \<Rightarrow> int \<Rightarrow> 'a list" where
  "slice0 xs end = (if end < 0 then take (nat (int (length xs) + end)) xs else take (nat end) xs)"

text \<open>The events \<open>evs\<close> happened before the run \<open>r\<close>.\<close>

definition prepend :: "'a event list \<Rightarrow> 'a event list \<times> 'b \<Rightarrow> 'a event list \<times> 'b" where
  "prepend evs r = (evs @ fst r, snd r)"

section \<open>fetchPageWithRetry\<close>

text \<open>
  The two comparisons with \<^verbatim>\<open>this.options.retryCount!\<close>:
  \<^verbatim>\<open>attempt <= retryCount\<close> and \<^verbatim>\<open>attempt < retryCount\<close>. Both are false when
  \<^verbatim>\<open>retryCount\<close> is \<^verbatim>\<open>undefined\<close>.
\<close>

definition withinRetries :: "('a, 'e) CollectorOptions \<Rightarrow> nat \<Rightarrow> bool" where
  "withinRetries this attempt =
     (case retryCount this of None \<Rightarrow> False | Some r \<Rightarrow> int attempt \<le> r)"

definition retryRemains :: "('a, 'e) CollectorOptions \<Rightarrow> nat \<Rightarrow> bool" where
  "retryRemains this attempt =
     (case retryCount this of None \<Rightarrow> False | Some r \<Rightarrow> int attempt < r)"

text \<open>
  \<^verbatim>\<open>for (let attempt = 0; attempt <= retryCount; attempt++)\<close>: a successful fetch returns
  the page; a failed one is remembered in \<^verbatim>\<open>lastError\<close>, followed by a sleep when another
  attempt remains. After the loop, \<^verbatim>\<open>throw lastError\<close>. The result carries the events, the
  outcome and the pager's remaining answers.
\<close>

function fetchPageWithRetry_loop ::
  "('a, 'e) CollectorOptions \<Rightarrow> ('r, 'e) pager \<Rightarrow> string \<Rightarrow> ('r \<Rightarrow> 'a) \<Rightarrow> string option
    \<Rightarrow> nat \<Rightarrow> 'e option
    \<Rightarrow> 'a event list \<times> ('e, 'a PageResult) outcome \<times> ('r, 'e) pager" where
  "fetchPageWithRetry_loop this pager queryExecutionId rowParser token attempt lastError =
     (if withinRetries this attempt then
        (case fetchPageWith pager rowParser of
           (None, pager') \<Rightarrow> ([FetchPageWith queryExecutionId token], Pending, pager')
         | (Some (Inr page), pager') \<Rightarrow>
             ([FetchPageWith queryExecutionId token], Returned page, pager')
         | (Some (Inl err), pager') \<Rightarrow>
             (case fetchPageWithRetry_loop this pager' queryExecutionId rowParser token
                     (attempt + 1) (Some err) of
                (evs, r) \<Rightarrow>
                  (FetchPageWith queryExecutionId token
                     # (if retryRemains this attempt then [Sleep (retryDelayMs this)] else [])
                     @ evs, r)))
      else
        ([], (case lastError of None \<Rightarrow> ThrewUndefined | Some err \<Rightarrow> Threw err), pager))"
  by pat_completeness auto
termination
  by (relation "measure (\<lambda>(this, pager, q, p, t, attempt, e).
        case retryCount this of None \<Rightarrow> 0 | Some r \<Rightarrow> nat (r + 1 - int attempt))")
    (auto simp: withinRetries_def split: option.splits)

definition fetchPageWithRetry ::
  "('a, 'e) CollectorOptions \<Rightarrow> ('r, 'e) pager \<Rightarrow> string \<Rightarrow> ('r \<Rightarrow> 'a) \<Rightarrow> string option
    \<Rightarrow> 'a event list \<times> ('e, 'a PageResult) outcome \<times> ('r, 'e) pager" where
  "fetchPageWithRetry this pager queryExecutionId rowParser token =
     fetchPageWithRetry_loop this pager queryExecutionId rowParser token 0 None"

declare fetchPageWithRetry_loop.simps [simp del]

lemma fetchPageWithRetry_loop_shorter:
  "fetchPageWithRetry_loop this pager queryExecutionId rowParser token attempt lastError
     = (evs, Returned page, pager') \<Longrightarrow> length pager' < length pager"
proof (induction this pager queryExecutionId rowParser token attempt lastError
    arbitrary: evs rule: fetchPageWithRetry_loop.induct)
  case (1 this pager queryExecutionId rowParser token attempt lastError)
  note unfold = fetchPageWithRetry_loop.simps
    [of this pager queryExecutionId rowParser token attempt lastError]
  from "1.prems" have le: "withinRetries this attempt"
    by (subst (asm) unfold) (simp split: if_splits option.splits)
  show ?case
  proof (cases pager)
    case Nil
    with "1.prems" le show ?thesis
      by (subst (asm) unfold) simp
  next
    case (Cons answer rest)
    show ?thesis
    proof (cases answer)
      case (Inl err)
      obtain evs0 r0 where rec:
        "fetchPageWithRetry_loop this rest queryExecutionId rowParser token (attempt + 1)
           (Some err) = (evs0, r0)"
        by (cases "fetchPageWithRetry_loop this rest queryExecutionId rowParser token
              (attempt + 1) (Some err)") auto
      from "1.prems" le Cons Inl rec have "r0 = (Returned page, pager')"
        by (subst (asm) unfold) simp
      with rec "1.IH" le Cons Inl
      show ?thesis by fastforce
    next
      case (Inr pg)
      with Cons "1.prems" le show ?thesis
        by (subst (asm) unfold) auto
    qed
  qed
qed

lemma fetchPageWithRetry_shorter:
  "fetchPageWithRetry this pager queryExecutionId rowParser token = (evs, Returned page, pager')
     \<Longrightarrow> length pager' < length pager"
  unfolding fetchPageWithRetry_def by (rule fetchPageWithRetry_loop_shorter)

section \<open>collect and collectWith\<close>

text \<open>
  The \<^verbatim>\<open>maxRows\<close> check of \<^verbatim>\<open>collectWith\<close>: when a limit is configured and
  \<^verbatim>\<open>page.rows.length >= remaining\<close>, the loop breaks; the result is then the value of
  \<^verbatim>\<open>remaining = maxRows - rows.length\<close>.
\<close>

definition maxRowsCheck ::
  "('a, 'e) CollectorOptions \<Rightarrow> 'a list \<Rightarrow> 'a PageResult \<Rightarrow> int option" where
  "maxRowsCheck this collected page =
     (case maxRows this of
        None \<Rightarrow> None
      | Some m \<Rightarrow>
          (let remaining = int m - int (length collected)
           in if int (length (PageResult.rows page)) \<ge> remaining then Some remaining else None))"

text \<open>\<^verbatim>\<open>if (this.options.onPage) await this.options.onPage(page, rows.length)\<close>.\<close>

definition callOnPage ::
  "('a, 'e) CollectorOptions \<Rightarrow> 'a PageResult \<Rightarrow> nat \<Rightarrow> 'a event list \<times> 'e option" where
  "callOnPage this page totalCollected =
     (case onPage this of
        None \<Rightarrow> ([], None)
      | Some callback \<Rightarrow> ([OnPage page totalCollected], callback page totalCollected))"

text \<open>The returned object: \<^verbatim>\<open>{ rows, totalRows: rows.length, pageCount, truncated }\<close>.\<close>

definition collectResult :: "'a list \<Rightarrow> nat \<Rightarrow> bool \<Rightarrow> 'a CollectResult" where
  "collectResult collected pages trunc =
     \<lparr> CollectResult.rows = collected,
       CollectResult.totalRows = length collected,
       CollectResult.pageCount = pages,
       truncated = trunc \<rparr>"

text \<open>
  One iteration of the \<^verbatim>\<open>do { ... } while (nextToken)\<close> of \<^verbatim>\<open>collectWith\<close>, with
  the loop variables \<^verbatim>\<open>rows\<close>, \<^verbatim>\<open>nextToken\<close> and \<^verbatim>\<open>pageCount\<close> as arguments.
\<close>

function collectWith_loop ::
  "('a, 'e) CollectorOptions \<Rightarrow> ('r, 'e) pager \<Rightarrow> string \<Rightarrow> ('r \<Rightarrow> 'a)
    \<Rightarrow> 'a list \<Rightarrow> string option \<Rightarrow> nat
    \<Rightarrow> 'a event list \<times> ('e, 'a CollectResult) outcome" where
  "collectWith_loop this pager queryExecutionId rowParser collected token pages =
     (case fetchPageWithRetry this pager queryExecutionId rowParser token of
        (evs, Pending, pager') \<Rightarrow> (evs, Pending)
      | (evs, Threw err, pager') \<Rightarrow> (evs, Threw err)
      | (evs, ThrewUndefined, pager') \<Rightarrow> (evs, ThrewUndefined)
      | (evs, Returned page, pager') \<Rightarrow>
          (case maxRowsCheck this collected page of
             Some remaining \<Rightarrow>
               (evs, Returned (collectResult
                  (collected @ slice0 (PageResult.rows page) remaining) (pages + 1) True))
           | None \<Rightarrow>
               (case callOnPage this page (length (collected @ PageResult.rows page)) of
                  (cbEvs, Some err) \<Rightarrow> (evs @ cbEvs, Threw err)
                | (cbEvs, None) \<Rightarrow>
                    (if truthy (nextToken page) then
                       prepend (evs @ cbEvs)
                         (collectWith_loop this pager' queryExecutionId rowParser
                            (collected @ PageResult.rows page) (nextToken page) (pages + 1))
                     else
                       (evs @ cbEvs, Returned (collectResult
                          (collected @ PageResult.rows page) (pages + 1) False))))))"
  by pat_completeness auto
termination
  by (relation "measure (\<lambda>(this, pager, q, p, c, t, n). length pager)")
     (auto dest: fetchPageWithRetry_shorter [OF sym])

text \<open>
  \<^verbatim>\<open>collectWith\<close> resets the pager and runs the loop from \<^verbatim>\<open>rows = []\<close>, no token
  and \<^verbatim>\<open>pageCount = 0\<close>; \<^verbatim>\<open>collect\<close> is \<^verbatim>\<open>collectWith\<close> with the parser
  \<^verbatim>\<open>(row) => row\<close>.
\<close>

definition collectWith ::
  "('a, 'e) CollectorOptions \<Rightarrow> ('r, 'e) pager \<Rightarrow> string \<Rightarrow> ('r \<Rightarrow> 'a)
    \<Rightarrow> 'a event list \<times> ('e, 'a CollectResult) outcome" where
  "collectWith this pager queryExecutionId rowParser =
     prepend [Reset] (collectWith_loop this pager queryExecutionId rowParser [] None 0)"

definition collect ::
  "('r, 'e) CollectorOptions \<Rightarrow> ('r, 'e) pager \<Rightarrow> string
    \<Rightarrow> 'r event list \<times> ('e, 'r CollectResult) outcome" where
  "collect this pager queryExecutionId = collectWith this pager queryExecutionId (\<lambda>row. row)"

section \<open>stream\<close>

text \<open>\<^verbatim>\<open>this.options.maxRows !== undefined && n >= this.options.maxRows\<close>.\<close>

definition maxRowsReached :: "('a, 'e) CollectorOptions \<Rightarrow> nat \<Rightarrow> bool" where
  "maxRowsReached this n = (case maxRows this of None \<Rightarrow> False | Some m \<Rightarrow> n \<ge> m)"

text \<open>
  The \<^verbatim>\<open>for (const row of page.rows)\<close> of \<^verbatim>\<open>stream\<close>: the yields, the new
  \<^verbatim>\<open>count\<close>, and whether the generator returned inside the page.
\<close>

fun stream_rows ::
  "('a, 'e) CollectorOptions \<Rightarrow> nat \<Rightarrow> 'a list \<Rightarrow> 'a event list \<times> nat \<times> bool" where
  "stream_rows this count [] = ([], count, False)"
| "stream_rows this count (row # rest) =
     (if maxRowsReached this count then ([], count, True)
      else (case stream_rows this (count + 1) rest of
              (evs, r) \<Rightarrow> (Yield row # evs, r)))"

text \<open>
  One iteration of the \<^verbatim>\<open>do { ... } while (nextToken)\<close> of \<^verbatim>\<open>stream\<close>, with the
  loop variables \<^verbatim>\<open>nextToken\<close> and \<^verbatim>\<open>count\<close>. The generator is run to its end;
  a consumer that stops early sees a prefix of the events.
\<close>

function stream_loop ::
  "('a, 'e) CollectorOptions \<Rightarrow> ('r, 'e) pager \<Rightarrow> string \<Rightarrow> ('r \<Rightarrow> 'a)
    \<Rightarrow> string option \<Rightarrow> nat
    \<Rightarrow> 'a event list \<times> ('e, unit) outcome" where
  "stream_loop this pager queryExecutionId rowParser token count =
     (case fetchPageWithRetry this pager queryExecutionId rowParser token of
        (evs, Pending, pager') \<Rightarrow> (evs, Pending)
      | (evs, Threw err, pager') \<Rightarrow> (evs, Threw err)
      | (evs, ThrewUndefined, pager') \<Rightarrow> (evs, ThrewUndefined)
      | (evs, Returned page, pager') \<Rightarrow>
          (case stream_rows this count (PageResult.rows page) of
             (yields, count', True) \<Rightarrow> (evs @ yields, Returned ())
           | (yields, count', False) \<Rightarrow>
               (if truthy (nextToken page) then
                  prepend (evs @ yields)
                    (stream_loop this pager' queryExecutionId rowParser (nextToken page) count')
                else (evs @ yields, Returned ()))))"
  by pat_completeness auto
termination
  by (relation "measure (\<lambda>(this, pager, q, p, t, n). length pager)")
     (auto dest: fetchPageWithRetry_shorter [OF sym])

definition stream ::
  "('a, 'e) CollectorOptions \<Rightarrow> ('r, 'e) pager \<Rightarrow> string \<Rightarrow> ('r \<Rightarrow> 'a)
    \<Rightarrow> 'a event list \<times> ('e, unit) outcome" where
  "stream this pager queryExecutionId rowParser =
     prepend [Reset] (stream_loop this pager queryExecutionId rowParser None 0)"

section \<open>processBatches\<close>

text \<open>
  One iteration of the \<^verbatim>\<open>do { ... } while (nextToken)\<close> of \<^verbatim>\<open>processBatches\<close>,
  with the loop variables \<^verbatim>\<open>nextToken\<close>, \<^verbatim>\<open>pageCount\<close> and \<^verbatim>\<open>totalRows\<close>:
  the callback gets the page's rows and the page count before it is incremented; the limit is
  checked after the page has been counted.
\<close>

function processBatches_loop ::
  "('a, 'e) CollectorOptions \<Rightarrow> ('r, 'e) pager \<Rightarrow> string \<Rightarrow> ('r \<Rightarrow> 'a)
    \<Rightarrow> ('a list \<Rightarrow> nat \<Rightarrow> 'e option) \<Rightarrow> string option \<Rightarrow> nat \<Rightarrow> nat
    \<Rightarrow> 'a event list \<times> ('e, BatchResult) outcome" where
  "processBatches_loop this pager queryExecutionId rowParser batchProcessor token pages totalSoFar =
     (case fetchPageWithRetry this pager queryExecutionId rowParser token of
        (evs, Pending, pager') \<Rightarrow> (evs, Pending)
      | (evs, Threw err, pager') \<Rightarrow> (evs, Threw err)
      | (evs, ThrewUndefined, pager') \<Rightarrow> (evs, ThrewUndefined)
      | (evs, Returned page, pager') \<Rightarrow>
          (case batchProcessor (PageResult.rows page) pages of
             Some err \<Rightarrow> (evs @ [BatchProcessor (PageResult.rows page) pages], Threw err)
           | None \<Rightarrow>
               (if maxRowsReached this (totalSoFar + length (PageResult.rows page)) then
                  (evs @ [BatchProcessor (PageResult.rows page) pages],
                   Returned \<lparr> BatchResult.totalRows = totalSoFar + length (PageResult.rows page),
                              BatchResult.pageCount = pages + 1 \<rparr>)
                else if truthy (nextToken page) then
                  prepend (evs @ [BatchProcessor (PageResult.rows page) pages])
                    (processBatches_loop this pager' queryExecutionId rowParser batchProcessor
                       (nextToken page) (pages + 1) (totalSoFar + length (PageResult.rows page)))
                else
                  (evs @ [BatchProcessor (PageResult.rows page) pages],
                   Returned \<lparr> BatchResult.totalRows = totalSoFar + length (PageResult.rows page),
                              BatchResult.pageCount = pages + 1 \<rparr>))))"
  by pat_completeness auto
termination
  by (relation "measure (\<lambda>(this, pager, q, p, b, t, n, m). length pager)")
     (auto dest: fetchPageWithRetry_shorter [OF sym])

definition processBatches ::
  "('a, 'e) CollectorOptions \<Rightarrow> ('r, 'e) pager \<Rightarrow> string \<Rightarrow> ('r \<Rightarrow> 'a)
    \<Rightarrow> ('a list \<Rightarrow> nat \<Rightarrow> 'e option)
    \<Rightarrow> 'a event list \<times> ('e, BatchResult) outcome" where
  "processBatches this pager queryExecutionId rowParser batchProcessor =
     prepend [Reset]
       (processBatches_loop this pager queryExecutionId rowParser batchProcessor None 0 0)"

declare collectWith_loop.simps [simp del]
declare stream_loop.simps [simp del]
declare processBatches_loop.simps [simp del]

section \<open>Observations on a run\<close>

text \<open>The number of calls of the pager's \<^verbatim>\<open>fetchPageWith\<close> in a run.\<close>

fun fetchCalls :: "'a event list \<Rightarrow> nat" where
  "fetchCalls [] = 0"
| "fetchCalls (FetchPageWith q t # evs) = Suc (fetchCalls evs)"
| "fetchCalls (ev # evs) = fetchCalls evs"

text \<open>The elements a run of the generator yields, in order.\<close>

fun yielded :: "'a event list \<Rightarrow> 'a list" where
  "yielded [] = []"
| "yielded (Yield x # evs) = x # yielded evs"
| "yielded (ev # evs) = yielded evs"

text \<open>The calls of \<^verbatim>\<open>onPage\<close> and of \<^verbatim>\<open>batchProcessor\<close>, with their arguments.\<close>

fun onPageCalls :: "'a event list \<Rightarrow> ('a PageResult \<times> nat) list" where
  "onPageCalls [] = []"
| "onPageCalls (OnPage page n # evs) = (page, n) # onPageCalls evs"
| "onPageCalls (ev # evs) = onPageCalls evs"

fun batchCalls :: "'a event list \<Rightarrow> ('a list \<times> nat) list" where
  "batchCalls [] = []"
| "batchCalls (BatchProcessor rs i # evs) = (rs, i) # batchCalls evs"
| "batchCalls (ev # evs) = batchCalls evs"

section \<open>Page sequences\<close>

text \<open>The rows of a page sequence: how many there are, and all of them in fetch order.\<close>

definition rowsAvailable :: "'r PageResult list \<Rightarrow> nat" where
  "rowsAvailable ps = sum_list (map (\<lambda>p. length (PageResult.rows p)) ps)"

definition allRows :: "('r \<Rightarrow> 'a) \<Rightarrow> 'r PageResult list \<Rightarrow> 'a list" where
  "allRows rowParser ps = concat (map (\<lambda>p. map rowParser (PageResult.rows p)) ps)"

text \<open>The running row count after each page, starting from \<open>n\<close> rows.\<close>

fun cumulative :: "nat \<Rightarrow> 'r PageResult list \<Rightarrow> nat list" where
  "cumulative n [] = []"
| "cumulative n (p # ps) =
     (n + length (PageResult.rows p)) # cumulative (n + length (PageResult.rows p)) ps"

text \<open>The token passed to the fetch that follows the pages \<open>ps\<close>.\<close>

fun tokenAfter :: "string option \<Rightarrow> 'r PageResult list \<Rightarrow> string option" where
  "tokenAfter token [] = token"
| "tokenAfter token (p # ps) = tokenAfter (nextToken p) ps"

text \<open>
  A finished page sequence: every page but the last carries a continuation token, the last
  one does not.
\<close>

definition pageSequence :: "'r PageResult list \<Rightarrow> bool" where
  "pageSequence ps \<longleftrightarrow>
     ps \<noteq> [] \<and> list_all (\<lambda>p. truthy (nextToken p)) (butlast ps) \<and> \<not> truthy (nextToken (last ps))"

definition allCarryToken :: "'r PageResult list \<Rightarrow> bool" where
  "allCarryToken ps = list_all (\<lambda>p. truthy (nextToken p)) ps"

text \<open>
  Starting from \<open>n\<close> collected rows, no page of \<open>ps\<close> reaches the limit: the running
  count after each page stays below \<^verbatim>\<open>maxRows\<close> (the page's row count is less than
  \<^verbatim>\<open>remaining\<close>). Without a limit this always holds.
\<close>

definition belowLimit :: "('a, 'e) CollectorOptions \<Rightarrow> nat \<Rightarrow> 'r PageResult list \<Rightarrow> bool" where
  "belowLimit this n ps =
     (case maxRows this of None \<Rightarrow> True | Some m \<Rightarrow> list_all (\<lambda>c. c < m) (cumulative n ps))"

text \<open>
  The \<^verbatim>\<open>onPage\<close> callback, when configured, returns normally on each page of \<open>ps\<close>
  with the running row count after it.
\<close>

definition onPageReturns ::
  "('a, 'e) CollectorOptions \<Rightarrow> ('r \<Rightarrow> 'a) \<Rightarrow> nat \<Rightarrow> 'r PageResult list \<Rightarrow> bool" where
  "onPageReturns this f n ps =
     (case onPage this of
        None \<Rightarrow> True
      | Some callback \<Rightarrow>
          list_all (\<lambda>(page, c). callback page c = None)
            (zip (map (parsePage f) ps) (cumulative n ps)))"

text \<open>
  The events of fetching the pages \<open>ps\<close> one after the other, each with the token of the
  page before it; when \<open>observed\<close>, each fetch is followed by the \<^verbatim>\<open>onPage\<close> call for
  that page with the running row count.
\<close>

fun pageEvents ::
  "bool \<Rightarrow> string \<Rightarrow> ('r \<Rightarrow> 'a) \<Rightarrow> string option \<Rightarrow> nat \<Rightarrow> 'r PageResult list
    \<Rightarrow> 'a event list" where
  "pageEvents observed q f token n [] = []"
| "pageEvents observed q f token n (p # ps) =
     FetchPageWith q token
       # (if observed then [OnPage (parsePage f p) (n + length (PageResult.rows p))] else [])
       @ pageEvents observed q f (nextToken p) (n + length (PageResult.rows p)) ps"

text \<open>
  The \<^verbatim>\<open>batchProcessor\<close> callback returns normally on each page of \<open>ps\<close>, called with
  the page's rows and the page indices \<open>k\<close>, \<open>k + 1\<close>, ...
\<close>

fun batchReturns ::
  "('a list \<Rightarrow> nat \<Rightarrow> 'e option) \<Rightarrow> ('r \<Rightarrow> 'a) \<Rightarrow> nat \<Rightarrow> 'r PageResult list \<Rightarrow> bool" where
  "batchReturns batchProcessor f k [] = True"
| "batchReturns batchProcessor f k (p # ps) =
     (batchProcessor (map f (PageResult.rows p)) k = None
      \<and> batchReturns batchProcessor f (Suc k) ps)"

text \<open>
  The events of fetching the pages \<open>ps\<close> one after the other, each fetch followed by the
  \<^verbatim>\<open>batchProcessor\<close> call with all rows of the page and the next page index.
\<close>

fun batchEvents ::
  "string \<Rightarrow> ('r \<Rightarrow> 'a) \<Rightarrow> string option \<Rightarrow> nat \<Rightarrow> 'r PageResult list \<Rightarrow> 'a event list" where
  "batchEvents q f token k [] = []"
| "batchEvents q f token k (p # ps) =
     FetchPageWith q token # BatchProcessor (map f (PageResult.rows p)) k
       # batchEvents q f (nextToken p) (Suc k) ps"

text \<open>
  The events of streaming the pages \<open>ps\<close> in full: each fetch followed by one yield per
  row of the page.
\<close>

fun streamEvents ::
  "string \<Rightarrow> ('r \<Rightarrow> 'a) \<Rightarrow> string option \<Rightarrow> 'r PageResult list \<Rightarrow> 'a event list" where
  "streamEvents q f token [] = []"
| "streamEvents q f token (p # ps) =
     FetchPageWith q token # map Yield (map f (PageResult.rows p))
       @ streamEvents q f (nextToken p) ps"

section \<open>Example inputs\<close>

text \<open>A page as the tests build it: the rows, the token, and \<^verbatim>\<open>rowCount = rows.length\<close>.\<close>

definition mkPage :: "nat list \<Rightarrow> string option \<Rightarrow> nat PageResult" where
  "mkPage rs token = \<lparr> PageResult.rows = rs, nextToken = token, rowCount = length rs \<rparr>"

text \<open>A collector built with the given \<^verbatim>\<open>maxRows\<close> and \<^verbatim>\<open>retryCount\<close> and no callback.\<close>

definition collectorWith :: "nat option \<Rightarrow> nat option \<Rightarrow> (nat, string) CollectorOptions" where
  "collectorWith optMaxRows optRetryCount =
     AthenaQueryResultCollector
       (case optMaxRows of None \<Rightarrow> Omitted | Some m \<Rightarrow> Given m) Omitted
       (case optRetryCount of None \<Rightarrow> Omitted | Some r \<Rightarrow> Given (int r)) Omitted"


text \<open>The same with an \<^verbatim>\<open>onPage\<close> callback.\<close>

definition collectorObserving ::
  "nat option \<Rightarrow> (nat PageResult \<Rightarrow> nat \<Rightarrow> string option) \<Rightarrow> nat option
    \<Rightarrow> (nat, string) CollectorOptions" where
  "collectorObserving optMaxRows callback optRetryCount =
     AthenaQueryResultCollector
       (case optMaxRows of None \<Rightarrow> Omitted | Some m \<Rightarrow> Given m) (Given callback)
       (case optRetryCount of None \<Rightarrow> Omitted | Some r \<Rightarrow> Given (int r)) Omitted"

section \<open>Retries\<close>

lemma withinRetries_nat [simp]:
  "retryCount this = Some (int r) \<Longrightarrow> withinRetries this attempt \<longleftrightarrow> attempt \<le> r"
  by (simp add: withinRetries_def)

lemma retryRemains_nat [simp]:
  "retryCount this = Some (int r) \<Longrightarrow> retryRemains this attempt \<longleftrightarrow> attempt < r"
  by (simp add: retryRemains_def)

text \<open>
  What the constructor leaves in \<^verbatim>\<open>this.options\<close>: the defaults stand only for a
  property that is left out.
\<close>

lemma AthenaQueryResultCollector_retryCount:
  "retryCount (AthenaQueryResultCollector optMaxRows optOnPage Omitted optRetryDelayMs) = Some 0"
  "retryCount (AthenaQueryResultCollector optMaxRows optOnPage Undefined optRetryDelayMs) = None"
  "retryCount (AthenaQueryResultCollector optMaxRows optOnPage (Given n) optRetryDelayMs)
     = Some n"
  by (simp_all add: AthenaQueryResultCollector_def spreadOver_def valueOf_def)

lemma AthenaQueryResultCollector_retryDelayMs:
  "retryDelayMs (AthenaQueryResultCollector optMaxRows optOnPage optRetryCount Omitted)
     = Some 1000"
  "retryDelayMs (AthenaQueryResultCollector optMaxRows optOnPage optRetryCount Undefined) = None"
  "retryDelayMs (AthenaQueryResultCollector optMaxRows optOnPage optRetryCount (Given d))
     = Some d"
  by (simp_all add: AthenaQueryResultCollector_def spreadOver_def valueOf_def)

text \<open>Without a non-negative \<^verbatim>\<open>retryCount\<close> the retry loop throws before any fetch.\<close>

lemma fetchPageWithRetry_no_attempt:
  assumes "\<not> withinRetries this 0"
  shows "fetchPageWithRetry this pager q f token = ([], ThrewUndefined, pager)"
  using assms by (simp add: fetchPageWithRetry_def fetchPageWithRetry_loop.simps)

lemma collectorWith_simps [simp]:
  "maxRows (collectorWith optMaxRows optRetryCount) = optMaxRows"
  "onPage (collectorWith optMaxRows optRetryCount) = None"
  "retryCount (collectorWith optMaxRows optRetryCount)
     = Some (int (case optRetryCount of None \<Rightarrow> 0 | Some r \<Rightarrow> r))"
  by (simp_all add: collectorWith_def AthenaQueryResultCollector_def spreadOver_def valueOf_def
      split: option.splits)

lemma collectorObserving_simps [simp]:
  "maxRows (collectorObserving optMaxRows callback optRetryCount) = optMaxRows"
  "onPage (collectorObserving optMaxRows callback optRetryCount) = Some callback"
  "retryCount (collectorObserving optMaxRows callback optRetryCount)
     = Some (int (case optRetryCount of None \<Rightarrow> 0 | Some r \<Rightarrow> r))"
  by (simp_all add: collectorObserving_def AthenaQueryResultCollector_def spreadOver_def
      valueOf_def split: option.splits)

lemma fetchPageWithRetry_loop_page:
  "withinRetries this attempt \<Longrightarrow>
   fetchPageWithRetry_loop this (Inr page # rest) q f token attempt lastError
     = ([FetchPageWith q token], Returned (parsePage f page), rest)"
  by (subst fetchPageWithRetry_loop.simps) simp

lemma fetchPageWithRetry_loop_Nil:
  "withinRetries this attempt \<Longrightarrow>
   fetchPageWithRetry_loop this [] q f token attempt lastError
     = ([FetchPageWith q token], Pending, [])"
  by (subst fetchPageWithRetry_loop.simps) simp

lemma fetchPageWithRetry_loop_exhausted:
  "\<not> withinRetries this attempt \<Longrightarrow>
   fetchPageWithRetry_loop this pager q f token attempt (Some err) = ([], Threw err, pager)"
  by (subst fetchPageWithRetry_loop.simps) simp

lemma fetchPageWithRetry_loop_error:
  "withinRetries this attempt \<Longrightarrow>
   fetchPageWithRetry_loop this (Inl err # rest) q f token attempt lastError
     = (case fetchPageWithRetry_loop this rest q f token (Suc attempt) (Some err) of
          (evs, r) \<Rightarrow>
            (FetchPageWith q token
               # (if retryRemains this attempt then [Sleep (retryDelayMs this)] else []) @ evs, r))"
  by (subst fetchPageWithRetry_loop.simps) simp

text \<open>A run of failures that the retry budget covers: each is followed by a sleep.\<close>

lemma fetchPageWithRetry_loop_errors:
  "retryCount this = Some (int r) \<Longrightarrow> attempt + length errs \<le> r \<Longrightarrow>
   fetchPageWithRetry_loop this (map Inl errs @ pager) q f token attempt lastError
     = (case fetchPageWithRetry_loop this pager q f token (attempt + length errs)
               (if errs = [] then lastError else Some (last errs)) of
          (evs, r) \<Rightarrow>
            (concat (replicate (length errs) [FetchPageWith q token, Sleep (retryDelayMs this)])
               @ evs, r))"
proof (induction errs arbitrary: attempt lastError)
  case Nil
  then show ?case by simp
next
  case (Cons err errs)
  from Cons.prems have le: "withinRetries this attempt" and lt: "retryRemains this attempt"
    and rest: "Suc attempt + length errs \<le> r"
    by simp_all
  show ?case
    using lt
    by (simp add: fetchPageWithRetry_loop_error [OF le] Cons.IH [OF Cons.prems(1) rest]
        split: prod.splits)
qed

lemma fetchCalls_append [simp]: "fetchCalls (xs @ ys) = fetchCalls xs + fetchCalls ys"
  by (induction xs rule: fetchCalls.induct) simp_all

lemma fetchCalls_retries [simp]:
  "fetchCalls (concat (replicate n [FetchPageWith q token, Sleep d])) = n"
  by (induction n) simp_all

lemma fetchPageWithRetry_succeeds:
  assumes "retryCount this = Some (int r)" and "length errs \<le> r"
  shows "fetchPageWithRetry this (map Inl errs @ Inr page # rest) q f token =
    (concat (replicate (length errs) [FetchPageWith q token, Sleep (retryDelayMs this)])
       @ [FetchPageWith q token], Returned (parsePage f page), rest)"
  using assms
  by (simp add: fetchPageWithRetry_def fetchPageWithRetry_loop_errors [OF assms(1)]
      fetchPageWithRetry_loop_page)

lemma fetchPageWithRetry_exhausts:
  assumes "retryCount this = Some (int r)" and "r < length errs"
  shows "fetchPageWithRetry this (map Inl errs @ pager) q f token =
    (concat (replicate r [FetchPageWith q token, Sleep (retryDelayMs this)])
       @ [FetchPageWith q token], Threw (errs ! r),
     map Inl (drop (Suc r) errs) @ pager)"
proof -
  have split: "errs = take r errs @ errs ! r # drop (Suc r) errs"
    using assms(2) by (simp add: id_take_nth_drop)
  have m: "min (length errs) r = r"
    using assms(2) by simp
  have "fetchPageWithRetry this (map Inl errs @ pager) q f token =
      fetchPageWithRetry_loop this
        (map Inl (take r errs) @ (Inl (errs ! r) # map Inl (drop (Suc r) errs) @ pager))
        q f token 0 None"
    unfolding fetchPageWithRetry_def by (subst split) simp
  also have "\<dots> = (concat (replicate r [FetchPageWith q token, Sleep (retryDelayMs this)])
       @ [FetchPageWith q token], Threw (errs ! r), map Inl (drop (Suc r) errs) @ pager)"
    using fetchPageWithRetry_loop_errors [OF assms(1), of 0 "take r errs"
        "Inl (errs ! r) # map Inl (drop (Suc r) errs) @ pager" q f token None] assms(1)
    by (simp add: m fetchPageWithRetry_loop_error fetchPageWithRetry_loop_exhausted)
  finally show ?thesis .
qed

text \<open>
  Claim C3. \<^verbatim>\<open>retryCount\<close> is configured as the number \<open>r\<close>. The pager rejects
  \<open>k = length errs\<close> calls and then answers with a page. When \<open>r \<ge> k\<close>,
  \<^verbatim>\<open>fetchPageWithRetry\<close> returns that page and has called the pager exactly \<open>k + 1\<close>
  times. When \<open>r < k\<close>, it throws the error of the last attempt made, \<open>errs ! r\<close>, as it
  is, and has called the pager exactly \<open>r + 1\<close> times.
\<close>

theorem fetchPageWithRetry_attempts:
  assumes "retryCount this = Some (int r)"
  shows "(length errs \<le> r \<longrightarrow>
      fst (snd (fetchPageWithRetry this (map Inl errs @ Inr page # rest) q f token))
        = Returned (parsePage f page)
      \<and> fetchCalls (fst (fetchPageWithRetry this (map Inl errs @ Inr page # rest) q f token))
        = length errs + 1)
   \<and> (r < length errs \<longrightarrow>
      fst (snd (fetchPageWithRetry this (map Inl errs @ Inr page # rest) q f token))
        = Threw (errs ! r)
      \<and> fetchCalls (fst (fetchPageWithRetry this (map Inl errs @ Inr page # rest) q f token))
        = r + 1)"
  by (simp add: fetchPageWithRetry_succeeds [OF assms] fetchPageWithRetry_exhausts [OF assms])

theorem fetchPageWithRetry_attempts_witness:
  "retryCount (collectorWith None (Some 1)) = Some (int 1)
   \<and> length [''network error''] \<le> (1 :: nat)
   \<and> fst (snd (fetchPageWithRetry (collectorWith None (Some 1))
        (map Inl [''network error''] @ Inr (mkPage [7] None) # []) ''query-id-123''
        (\<lambda>row. row) None))
      = Returned (parsePage (\<lambda>row. row) (mkPage [7] None))
   \<and> fetchCalls (fst (fetchPageWithRetry (collectorWith None (Some 1))
        (map Inl [''network error''] @ Inr (mkPage [7] None) # []) ''query-id-123''
        (\<lambda>row. row) None))
      = length [''network error''] + 1
   \<and> retryCount (collectorWith None (Some 2)) = Some (int 2)
   \<and> (2 :: nat) < length [''e1'', ''e2'', ''e3'', ''e4'']
   \<and> fst (snd (fetchPageWithRetry (collectorWith None (Some 2))
        (map Inl [''e1'', ''e2'', ''e3'', ''e4''] @ Inr (mkPage [7] None) # [])
        ''query-id-123'' (\<lambda>row. row) None))
      = Threw ''e3''
   \<and> fetchCalls (fst (fetchPageWithRetry (collectorWith None (Some 2))
        (map Inl [''e1'', ''e2'', ''e3'', ''e4''] @ Inr (mkPage [7] None) # [])
        ''query-id-123'' (\<lambda>row. row) None))
      = 3"
proof -
  have once: "retryCount (collectorWith None (Some 1)) = Some (int 1)"
    and twice: "retryCount (collectorWith None (Some 2)) = Some (int 2)"
    by simp_all
  show ?thesis
    using fetchPageWithRetry_attempts [OF once, of "[''network error'']" "mkPage [7] None" "[]"
        "''query-id-123''" "\<lambda>row. row" None]
      fetchPageWithRetry_attempts [OF twice, of "[''e1'', ''e2'', ''e3'', ''e4'']"
        "mkPage [7] None" "[]" "''query-id-123''" "\<lambda>row. row" None]
    by simp
qed

section \<open>Bulk collection\<close>

text \<open>
  \<open>withinRetries this 0\<close>: the body of the retry loop runs at least once, which is the case
  when \<^verbatim>\<open>retryCount\<close> is a non-negative number.
\<close>

lemma withinRetries_0 [simp]: "retryCount this = Some (int r) \<Longrightarrow> withinRetries this 0"
  by simp

lemma fetchPageWithRetry_page:
  "withinRetries this 0 \<Longrightarrow>
   fetchPageWithRetry this (Inr p # rest) q f token
     = ([FetchPageWith q token], Returned (parsePage f p), rest)"
  by (simp add: fetchPageWithRetry_def fetchPageWithRetry_loop_page)

lemma fetchPageWithRetry_Nil:
  "withinRetries this 0 \<Longrightarrow>
   fetchPageWithRetry this [] q f token = ([FetchPageWith q token], Pending, [])"
  by (simp add: fetchPageWithRetry_def fetchPageWithRetry_loop_Nil)

lemma parsePage_simps [simp]:
  "PageResult.rows (parsePage f p) = map f (PageResult.rows p)"
  "nextToken (parsePage f p) = nextToken p"
  "rowCount (parsePage f p) = rowCount p"
  by (simp_all add: parsePage_def)

lemma prepend_simps [simp]:
  "prepend evs (evs', r) = (evs @ evs', r)"
  "fst (prepend evs x) = evs @ fst x"
  "snd (prepend evs x) = snd x"
  "prepend evs (prepend evs' x) = prepend (evs @ evs') x"
  "prepend [] x = x"
  by (simp_all add: prepend_def)

lemma rowsAvailable_simps [simp]:
  "rowsAvailable [] = 0"
  "rowsAvailable (p # ps) = length (PageResult.rows p) + rowsAvailable ps"
  "rowsAvailable (ps @ qs) = rowsAvailable ps + rowsAvailable qs"
  by (simp_all add: rowsAvailable_def)

lemma allRows_simps [simp]:
  "allRows f [] = []"
  "allRows f (p # ps) = map f (PageResult.rows p) @ allRows f ps"
  "allRows f (ps @ qs) = allRows f ps @ allRows f qs"
  by (simp_all add: allRows_def)

lemma length_allRows [simp]: "length (allRows f ps) = rowsAvailable ps"
  by (induction ps) simp_all

text \<open>One page that is appended in full, observed without error, and carries a token.\<close>

lemma collectWith_loop_step:
  assumes "belowLimit this (length collected) [p]"
    and "onPageReturns this f (length collected) [p]"
    and "truthy (nextToken p)"
    and "withinRetries this 0"
  shows "collectWith_loop this (Inr p # pager) q f collected token n =
    prepend (pageEvents (onPage this \<noteq> None) q f token (length collected) [p])
      (collectWith_loop this pager q f (collected @ map f (PageResult.rows p)) (nextToken p)
         (Suc n))"
  using assms
  by (subst collectWith_loop.simps)
    (auto simp: fetchPageWithRetry_page maxRowsCheck_def callOnPage_def belowLimit_def
      onPageReturns_def split: option.splits)


lemma belowLimit_Cons:
  "belowLimit this n (p # ps) \<longleftrightarrow>
     belowLimit this n [p] \<and> belowLimit this (n + length (PageResult.rows p)) ps"
  by (simp add: belowLimit_def split: option.splits)

lemma onPageReturns_Cons:
  "onPageReturns this f n (p # ps) \<longleftrightarrow>
     onPageReturns this f n [p] \<and> onPageReturns this f (n + length (PageResult.rows p)) ps"
  by (simp add: onPageReturns_def split: option.splits)

lemma belowLimit_Nil [simp]: "belowLimit this n []"
  by (simp add: belowLimit_def split: option.splits)

lemma onPageReturns_Nil [simp]: "onPageReturns this f n []"
  by (simp add: onPageReturns_def split: option.splits)

lemma collectWith_loop_appended:
  assumes "allCarryToken ps"
    and "belowLimit this (length collected) ps"
    and "onPageReturns this f (length collected) ps"
    and "withinRetries this 0"
  shows "collectWith_loop this (map Inr ps @ pager) q f collected token n =
    prepend (pageEvents (onPage this \<noteq> None) q f token (length collected) ps)
      (collectWith_loop this pager q f (collected @ allRows f ps) (tokenAfter token ps)
         (n + length ps))"
  using assms
proof (induction ps arbitrary: collected token n)
  case Nil
  then show ?case by simp
next
  case (Cons p ps)
  from Cons.prems have p: "belowLimit this (length collected) [p]"
      "onPageReturns this f (length collected) [p]" "truthy (nextToken p)"
    and ps: "allCarryToken ps"
      "belowLimit this (length (collected @ map f (PageResult.rows p))) ps"
      "onPageReturns this f (length (collected @ map f (PageResult.rows p))) ps"
    by (simp_all add: allCarryToken_def belowLimit_Cons [of this _ p ps]
        onPageReturns_Cons [of this f _ p ps])
  show ?case
    by (simp add: collectWith_loop_step [OF p Cons.prems(4)] Cons.IH [OF ps Cons.prems(4)])
qed

text \<open>The page that reaches the limit.\<close>

lemma collectWith_loop_truncating:
  assumes "maxRows this = Some m"
    and "length collected \<le> m"
    and "m \<le> length collected + length (PageResult.rows p)"
    and "withinRetries this 0"
  shows "collectWith_loop this (Inr p # pager) q f collected token n =
    ([FetchPageWith q token],
     Returned (collectResult (collected @ take (m - length collected) (map f (PageResult.rows p)))
       (Suc n) True))"
proof -
  have "maxRowsCheck this collected (parsePage f p) = Some (int m - int (length collected))"
    using assms by (simp add: maxRowsCheck_def)
  moreover have "slice0 (map f (PageResult.rows p)) (int m - int (length collected))
      = take (m - length collected) (map f (PageResult.rows p))"
    using assms by (simp add: slice0_def nat_diff_distrib')
  ultimately show ?thesis
    by (subst collectWith_loop.simps) (simp add: fetchPageWithRetry_page [OF assms(4)])
qed

text \<open>A page without a token that is appended in full.\<close>

lemma collectWith_loop_last:
  assumes "belowLimit this (length collected) [p]"
    and "onPageReturns this f (length collected) [p]"
    and "\<not> truthy (nextToken p)"
    and "withinRetries this 0"
  shows "collectWith_loop this (Inr p # pager) q f collected token n =
    (pageEvents (onPage this \<noteq> None) q f token (length collected) [p],
     Returned (collectResult (collected @ map f (PageResult.rows p)) (Suc n) False))"
  using assms
  by (subst collectWith_loop.simps)
    (auto simp: fetchPageWithRetry_page maxRowsCheck_def callOnPage_def belowLimit_def
      onPageReturns_def split: option.splits)

text \<open>A page that is appended in full and whose callback throws.\<close>

lemma collectWith_loop_onPage_throws:
  assumes "belowLimit this (length collected) [p]"
    and "onPage this = Some callback"
    and "callback (parsePage f p) (length collected + length (PageResult.rows p)) = Some err"
    and "withinRetries this 0"
  shows "collectWith_loop this (Inr p # pager) q f collected token n =
    ([FetchPageWith q token,
      OnPage (parsePage f p) (length collected + length (PageResult.rows p))], Threw err)"
  using assms
  by (subst collectWith_loop.simps)
    (auto simp: fetchPageWithRetry_page maxRowsCheck_def callOnPage_def belowLimit_def
      split: option.splits)

lemma fetchCalls_pageEvents [simp]: "fetchCalls (pageEvents ob q f token n ps) = length ps"
  by (induction ps arbitrary: token n) simp_all

lemma pageSequence_split:
  assumes "pageSequence ps"
  obtains pre p where "ps = pre @ [p]" and "allCarryToken pre" and "\<not> truthy (nextToken p)"
proof -
  from assms have "ps = butlast ps @ [last ps]" "allCarryToken (butlast ps)"
    "\<not> truthy (nextToken (last ps))"
    by (simp_all add: pageSequence_def allCarryToken_def)
  then show thesis using that by blast
qed

lemma cumulative_append [simp]:
  "cumulative n (ps @ qs) = cumulative n ps @ cumulative (n + rowsAvailable ps) qs"
  by (induction ps arbitrary: n) (simp_all add: add.assoc)

lemma length_cumulative [simp]: "length (cumulative n ps) = length ps"
  by (induction ps arbitrary: n) simp_all

lemma belowLimit_append:
  "belowLimit this n (ps @ qs) \<longleftrightarrow>
     belowLimit this n ps \<and> belowLimit this (n + rowsAvailable ps) qs"
  by (simp add: belowLimit_def split: option.splits)

lemma onPageReturns_append:
  "onPageReturns this f n (ps @ qs) \<longleftrightarrow>
     onPageReturns this f n ps \<and> onPageReturns this f (n + rowsAvailable ps) qs"
  by (simp add: onPageReturns_def split: option.splits)

lemma collectWith_appended:
  assumes "allCarryToken pre" and "belowLimit this 0 pre" and "onPageReturns this f 0 pre"
    and "withinRetries this 0"
  shows "collectWith this (map Inr pre @ pager) q f =
    prepend (Reset # pageEvents (onPage this \<noteq> None) q f None 0 pre)
      (collectWith_loop this pager q f (allRows f pre) (tokenAfter None pre) (length pre))"
  using collectWith_loop_appended [of pre this "[]" f pager q None 0] assms
  by (simp add: collectWith_def)

text \<open>
  Claim C1. \<^verbatim>\<open>retryCount\<close> is a non-negative number \<open>r\<close> (0 when the option is left
  out). Without a row limit, on a pager that serves a finished page sequence,
  \<^verbatim>\<open>collectWith\<close> (and so \<^verbatim>\<open>collect\<close>, its instance at the identity parser) returns
  the rows of all pages in fetch order, a page count equal to the number of pages, which is
  the number of fetch calls made, and \<^verbatim>\<open>truncated = false\<close>.
\<close>

theorem collectWith_unlimited:
  assumes "pageSequence ps"
    and "maxRows this = None"
    and "onPageReturns this f 0 ps"
    and "retryCount this = Some (int r)"
  shows "snd (collectWith this (map Inr ps @ rest) q f) =
      Returned \<lparr> CollectResult.rows = allRows f ps, totalRows = rowsAvailable ps,
        pageCount = length ps, truncated = False \<rparr>
    \<and> fetchCalls (fst (collectWith this (map Inr ps @ rest) q f)) = length ps"
proof -
  from assms(1) obtain pre p where ps: "ps = pre @ [p]" and tok: "allCarryToken pre"
    and fin: "\<not> truthy (nextToken p)"
    by (rule pageSequence_split)
  have below: "belowLimit this n qs" for n and qs :: "'a PageResult list"
    using assms(2) by (simp add: belowLimit_def)
  have run: "withinRetries this 0"
    using assms(4) by simp
  from assms(3) have ret: "onPageReturns this f 0 pre"
    "onPageReturns this f (length (allRows f pre)) [p]"
    by (simp_all add: ps onPageReturns_append)
  have "collectWith this (map Inr (pre @ [p]) @ rest) q f =
      (Reset # pageEvents (onPage this \<noteq> None) q f None 0 pre
         @ pageEvents (onPage this \<noteq> None) q f (tokenAfter None pre)
             (length (allRows f pre)) [p],
       Returned (collectResult (allRows f pre @ map f (PageResult.rows p))
         (Suc (length pre)) False))"
    using collectWith_appended [OF tok below ret(1) run, of "Inr p # rest" q]
      collectWith_loop_last [OF below ret(2) fin run, of rest q "tokenAfter None pre"
        "length pre"]
    by simp
  then show ?thesis
    by (simp add: ps collectResult_def)
qed


lemma belowLimit_total:
  "maxRows this = Some m \<Longrightarrow> n \<le> m \<Longrightarrow> belowLimit this n ps \<Longrightarrow> n + rowsAvailable ps \<le> m"
proof (induction ps arbitrary: n)
  case Nil
  then show ?case by simp
next
  case (Cons p ps)
  from Cons.prems have "n + length (PageResult.rows p) \<le> m"
    "belowLimit this (n + length (PageResult.rows p)) ps"
    by (simp_all add: belowLimit_def)
  from Cons.IH [OF Cons.prems(1) this] show ?case
    by (simp add: add.assoc)
qed

lemma belowLimit_nonempty:
  "maxRows this = Some m \<Longrightarrow> belowLimit this n ps \<Longrightarrow> ps \<noteq> [] \<Longrightarrow> n + rowsAvailable ps < m"
proof (induction ps arbitrary: n)
  case Nil
  then show ?case by simp
next
  case (Cons p ps)
  from Cons.prems have p: "n + length (PageResult.rows p) < m"
    and ps: "belowLimit this (n + length (PageResult.rows p)) ps"
    by (simp_all add: belowLimit_def)
  show ?case
  proof (cases ps)
    case Nil
    with p show ?thesis by simp
  next
    case (Cons p' ps')
    with Cons.IH [OF Cons.prems(1) ps] show ?thesis
      by (simp add: add.assoc)
  qed
qed

text \<open>Either no page reaches the limit, or there is a first page that does.\<close>

lemma limit_cases:
  assumes "maxRows this = Some m"
  obtains "belowLimit this n ps"
  | pre p later where "ps = pre @ p # later" and "belowLimit this n pre"
      and "m \<le> n + rowsAvailable pre + length (PageResult.rows p)"
proof -
  have "belowLimit this n ps \<or> (\<exists>pre p later. ps = pre @ p # later \<and> belowLimit this n pre
      \<and> m \<le> n + rowsAvailable pre + length (PageResult.rows p))"
  proof (induction ps arbitrary: n)
    case Nil
    then show ?case by simp
  next
    case (Cons p ps)
    show ?case
    proof (cases "m \<le> n + length (PageResult.rows p)")
      case True
      then have "p # ps = [] @ p # ps \<and> belowLimit this n []
          \<and> m \<le> n + rowsAvailable [] + length (PageResult.rows p)"
        by simp
      then show ?thesis by blast
    next
      case False
      then have p: "belowLimit this n [p]"
        using assms by (simp add: belowLimit_def)
      from Cons.IH [of "n + length (PageResult.rows p)"] show ?thesis
      proof
        assume "belowLimit this (n + length (PageResult.rows p)) ps"
        with p show ?thesis by (simp add: belowLimit_Cons [of this n p ps])
      next
        assume "\<exists>pre q later. ps = pre @ q # later
            \<and> belowLimit this (n + length (PageResult.rows p)) pre
            \<and> m \<le> n + length (PageResult.rows p) + rowsAvailable pre + length (PageResult.rows q)"
        then obtain pre q later where "ps = pre @ q # later"
          "belowLimit this (n + length (PageResult.rows p)) pre"
          "m \<le> n + length (PageResult.rows p) + rowsAvailable pre + length (PageResult.rows q)"
          by blast
        with p have "p # ps = (p # pre) @ q # later \<and> belowLimit this n (p # pre)
            \<and> m \<le> n + rowsAvailable (p # pre) + length (PageResult.rows q)"
          by (simp add: belowLimit_Cons [of this n p pre] add.assoc)
        then show ?thesis by blast
      qed
    qed
  qed
  then show thesis using that by blast
qed

lemma collectWith_truncates:
  assumes "maxRows this = Some m"
    and "allCarryToken pre" and "belowLimit this 0 pre" and "onPageReturns this f 0 pre"
    and "m \<le> rowsAvailable pre + length (PageResult.rows p)"
    and "withinRetries this 0"
  shows "collectWith this (map Inr (pre @ [p]) @ rest) q f =
    (Reset # pageEvents (onPage this \<noteq> None) q f None 0 pre
       @ [FetchPageWith q (tokenAfter None pre)],
     Returned (collectResult
       (allRows f pre @ take (m - rowsAvailable pre) (map f (PageResult.rows p)))
       (Suc (length pre)) True))"
proof -
  have le: "length (allRows f pre) \<le> m"
    using belowLimit_total [OF assms(1) _ assms(3)] by simp
  have reach: "m \<le> length (allRows f pre) + length (PageResult.rows p)"
    using assms(5) by simp
  show ?thesis
    using collectWith_appended [OF assms(2-4) assms(6), of "Inr p # rest" q]
      collectWith_loop_truncating [OF assms(1) le reach assms(6), of rest q f
        "tokenAfter None pre" "length pre"]
    by simp
qed

lemma collectWith_finishes:
  assumes "allCarryToken pre" and "belowLimit this 0 (pre @ [p])" and "onPageReturns this f 0 (pre @ [p])"
    and "\<not> truthy (nextToken p)"
    and "withinRetries this 0"
  shows "collectWith this (map Inr (pre @ [p]) @ rest) q f =
    (Reset # pageEvents (onPage this \<noteq> None) q f None 0 (pre @ [p]),
     Returned (collectResult (allRows f (pre @ [p])) (Suc (length pre)) False))"
proof -
  from assms(2) have below: "belowLimit this 0 pre" "belowLimit this (length (allRows f pre)) [p]"
    by (simp_all add: belowLimit_append)
  from assms(3) have ret: "onPageReturns this f 0 pre"
    "onPageReturns this f (length (allRows f pre)) [p]"
    by (simp_all add: onPageReturns_append)
  have ev: "pageEvents ob q f token n (pre @ [p]) = pageEvents ob q f token n pre
      @ pageEvents ob q f (tokenAfter token pre) (n + rowsAvailable pre) [p]"
    for ob token n
    by (induction pre arbitrary: token n) (simp_all add: add.assoc)
  show ?thesis
    using collectWith_appended [OF assms(1) below(1) ret(1) assms(5), of "Inr p # rest" q]
      collectWith_loop_last [OF below(2) ret(2) assms(4) assms(5), of rest q
        "tokenAfter None pre" "length pre"]
    by (simp add: ev)
qed


lemma pageSequence_tokens_prefix:
  assumes "pageSequence (pre @ p # later)"
  shows "allCarryToken pre"
proof -
  from assms have "allCarryToken (butlast (pre @ p # later))"
    by (simp add: pageSequence_def allCarryToken_def)
  then show ?thesis
    by (simp add: butlast_append allCarryToken_def split: if_splits)
qed

text \<open>
  Claim C2. \<^verbatim>\<open>retryCount\<close> is a non-negative number \<open>r\<close> (0 when the option is left
  out). With \<^verbatim>\<open>maxRows = m\<close>: when the pages \<open>pre\<close> were appended in full and the
  next page \<open>p\<close> has at least \<^verbatim>\<open>remaining = m - rows.length\<close> rows, \<^verbatim>\<open>collectWith\<close>
  returns the rows of \<open>pre\<close> followed by the first \<^verbatim>\<open>remaining\<close> rows of \<open>p\<close> (none
  when that is zero), with \<^verbatim>\<open>truncated = true\<close> and \<open>p\<close> counted in
  \<^verbatim>\<open>pageCount\<close>, and it fetches nothing after \<open>p\<close>. On every finished page sequence
  the number of rows returned is the minimum of \<open>m\<close> and the rows available.
\<close>

theorem collectWith_maxRows:
  assumes "maxRows this = Some m"
    and "retryCount this = Some (int r)"
  shows "(allCarryToken pre \<and> belowLimit this 0 pre \<and> onPageReturns this f 0 pre
        \<and> int (length (PageResult.rows p)) \<ge> int m - int (rowsAvailable pre) \<longrightarrow>
      snd (collectWith this (map Inr (pre @ [p]) @ rest) q f) =
        Returned \<lparr> CollectResult.rows =
            allRows f pre @ take (m - rowsAvailable pre) (map f (PageResult.rows p)),
          totalRows = m, pageCount = length pre + 1, truncated = True \<rparr>
      \<and> fetchCalls (fst (collectWith this (map Inr (pre @ [p]) @ rest) q f)) = length pre + 1)
    \<and> (pageSequence ps \<and> onPageReturns this f 0 ps \<longrightarrow>
      (\<exists>res. snd (collectWith this (map Inr ps @ rest) q f) = Returned res
        \<and> length (CollectResult.rows res) = min m (rowsAvailable ps)))"
proof (intro conjI impI)
  note limit = assms(1)
  have fetches: "withinRetries this 0"
    using assms(2) by simp
  {
  assume a: "allCarryToken pre \<and> belowLimit this 0 pre \<and> onPageReturns this f 0 pre
    \<and> int (length (PageResult.rows p)) \<ge> int m - int (rowsAvailable pre)"
  then have reach: "m \<le> rowsAvailable pre + length (PageResult.rows p)"
    by linarith
  from a have le: "rowsAvailable pre \<le> m"
    using belowLimit_total [OF limit, of 0 pre] by simp
  from a reach have run: "collectWith this (map Inr (pre @ [p]) @ rest) q f =
    (Reset # pageEvents (onPage this \<noteq> None) q f None 0 pre
       @ [FetchPageWith q (tokenAfter None pre)],
     Returned (collectResult
       (allRows f pre @ take (m - rowsAvailable pre) (map f (PageResult.rows p)))
       (Suc (length pre)) True))"
    using collectWith_truncates [OF limit, of pre f p rest q] fetches by blast
  show "snd (collectWith this (map Inr (pre @ [p]) @ rest) q f) =
        Returned \<lparr> CollectResult.rows =
            allRows f pre @ take (m - rowsAvailable pre) (map f (PageResult.rows p)),
          totalRows = m, pageCount = length pre + 1, truncated = True \<rparr>"
    using le reach run by (auto simp: collectResult_def min_def)
  show "fetchCalls (fst (collectWith this (map Inr (pre @ [p]) @ rest) q f)) = length pre + 1"
    using run by simp
  }
  assume b: "pageSequence ps \<and> onPageReturns this f 0 ps"
  from limit show "\<exists>res. snd (collectWith this (map Inr ps @ rest) q f) = Returned res
        \<and> length (CollectResult.rows res) = min m (rowsAvailable ps)"
  proof (cases rule: limit_cases [of this m 0 ps])
    case 1
    from b obtain pre p where ps: "ps = pre @ [p]" and tok: "allCarryToken pre"
      and fin: "\<not> truthy (nextToken p)"
      using pageSequence_split by blast
    from 1 limit have "rowsAvailable ps < m"
      using belowLimit_nonempty [of this m 0 ps] ps by simp
    moreover have "collectWith this (map Inr ps @ rest) q f =
      (Reset # pageEvents (onPage this \<noteq> None) q f None 0 ps,
       Returned (collectResult (allRows f ps) (Suc (length pre)) False))"
      using collectWith_finishes [OF tok _ _ fin fetches, of f rest q] 1 b ps by simp
    ultimately show ?thesis
      by (simp add: collectResult_def)
  next
    case (2 pre p later)
    from b 2(1) have tok: "allCarryToken pre"
      using pageSequence_tokens_prefix by blast
    from b 2(1) have ret: "onPageReturns this f 0 pre"
      by (simp add: onPageReturns_append)
    from 2(3) have reach: "m \<le> rowsAvailable pre + length (PageResult.rows p)"
      by simp
    have le: "rowsAvailable pre \<le> m"
      using belowLimit_total [OF limit _ 2(2)] by simp
    have "collectWith this (map Inr (pre @ [p]) @ (map Inr later @ rest)) q f =
      (Reset # pageEvents (onPage this \<noteq> None) q f None 0 pre
         @ [FetchPageWith q (tokenAfter None pre)],
       Returned (collectResult
         (allRows f pre @ take (m - rowsAvailable pre) (map f (PageResult.rows p)))
         (Suc (length pre)) True))"
      by (rule collectWith_truncates [OF limit tok 2(2) ret reach fetches])
    then show ?thesis
      using le reach by (auto simp: 2(1) collectResult_def min_def)
  qed
qed


theorem collectWith_unlimited_witness:
  "pageSequence [mkPage [1] (Some ''token1''), mkPage [2] None]
   \<and> maxRows (collectorWith None None) = None
   \<and> onPageReturns (collectorWith None None) (\<lambda>row. row) 0
        [mkPage [1] (Some ''token1''), mkPage [2] None]
   \<and> retryCount (collectorWith None None) = Some (int 0)
   \<and> snd (collect (collectorWith None None)
        (map Inr [mkPage [1] (Some ''token1''), mkPage [2] None] @ []) ''query-id-123'')
      = Returned \<lparr> CollectResult.rows = [1, 2], totalRows = 2, pageCount = 2,
          truncated = False \<rparr>
   \<and> fetchCalls (fst (collect (collectorWith None None)
        (map Inr [mkPage [1] (Some ''token1''), mkPage [2] None] @ []) ''query-id-123'')) = 2"
  using collectWith_unlimited [where ps = "[mkPage [1] (Some ''token1''), mkPage [2] None]"
      and this = "collectorWith None None" and f = "\<lambda>row. row" and r = 0 and rest = "[]"
      and q = "''query-id-123''"]
  by (simp add: collect_def pageSequence_def truthy_def mkPage_def onPageReturns_def)

theorem collectWith_maxRows_witness:
  "maxRows (collectorWith (Some 4) None) = Some 4
   \<and> retryCount (collectorWith (Some 4) None) = Some (int 0)
   \<and> allCarryToken [mkPage [1, 2, 3] (Some ''t'')]
   \<and> belowLimit (collectorWith (Some 4) None) 0 [mkPage [1, 2, 3] (Some ''t'')]
   \<and> onPageReturns (collectorWith (Some 4) None) (\<lambda>row. row) 0 [mkPage [1, 2, 3] (Some ''t'')]
   \<and> int (length (PageResult.rows (mkPage [4, 5] None)))
        \<ge> int 4 - int (rowsAvailable [mkPage [1, 2, 3] (Some ''t'')])
   \<and> snd (collectWith (collectorWith (Some 4) None)
        (map Inr ([mkPage [1, 2, 3] (Some ''t'')] @ [mkPage [4, 5] None]) @ []) ''query-id-123''
        (\<lambda>row. row))
      = Returned \<lparr> CollectResult.rows = [1, 2, 3, 4], totalRows = 4, pageCount = 2,
          truncated = True \<rparr>
   \<and> fetchCalls (fst (collectWith (collectorWith (Some 4) None)
        (map Inr ([mkPage [1, 2, 3] (Some ''t'')] @ [mkPage [4, 5] None]) @ []) ''query-id-123''
        (\<lambda>row. row))) = 2
   \<and> pageSequence [mkPage [1, 2, 3] (Some ''t''), mkPage [4, 5] None]
   \<and> onPageReturns (collectorWith (Some 4) None) (\<lambda>row. row) 0
        [mkPage [1, 2, 3] (Some ''t''), mkPage [4, 5] None]
   \<and> (\<exists>res. snd (collectWith (collectorWith (Some 4) None)
          (map Inr [mkPage [1, 2, 3] (Some ''t''), mkPage [4, 5] None] @ []) ''query-id-123''
          (\<lambda>row. row)) = Returned res
        \<and> length (CollectResult.rows res) = 4)
   \<and> maxRows (collectorWith (Some 0) None) = Some 0
   \<and> retryCount (collectorWith (Some 0) None) = Some (int 0)
   \<and> int (length (PageResult.rows (mkPage [4, 5] (Some ''t'')))) \<ge> int 0 - int (rowsAvailable [])
   \<and> snd (collectWith (collectorWith (Some 0) None)
        (map Inr ([] @ [mkPage [4, 5] (Some ''t'')]) @ [Inr (mkPage [6] None)]) ''query-id-123''
        (\<lambda>row. row))
      = Returned \<lparr> CollectResult.rows = [], totalRows = 0, pageCount = 1,
          truncated = True \<rparr>
   \<and> fetchCalls (fst (collectWith (collectorWith (Some 0) None)
        (map Inr ([] @ [mkPage [4, 5] (Some ''t'')]) @ [Inr (mkPage [6] None)]) ''query-id-123''
        (\<lambda>row. row))) = 1"
proof -
  have limit: "maxRows (collectorWith (Some 4) None) = Some 4"
    and retries: "retryCount (collectorWith (Some 4) None) = Some (int 0)"
    by simp_all
  have zero: "maxRows (collectorWith (Some 0) None) = Some 0"
    and retries0: "retryCount (collectorWith (Some 0) None) = Some (int 0)"
    by simp_all
  show ?thesis
    using collectWith_maxRows [OF limit retries, of "[mkPage [1, 2, 3] (Some ''t'')]"
        "\<lambda>row. row" "mkPage [4, 5] None" "[]" "''query-id-123''"
        "[mkPage [1, 2, 3] (Some ''t''), mkPage [4, 5] None]"]
      collectWith_maxRows [OF zero retries0, of "[]" "\<lambda>row. row"
        "mkPage [4, 5] (Some ''t'')" "[Inr (mkPage [6] None)]" "''query-id-123''" "[]"]
    by (simp add: pageSequence_def truthy_def mkPage_def onPageReturns_def belowLimit_def
        allCarryToken_def)
qed

lemma pageEvents_append:
  "pageEvents ob q f token n (ps @ qs) = pageEvents ob q f token n ps
      @ pageEvents ob q f (tokenAfter token ps) (n + rowsAvailable ps) qs"
  by (induction ps arbitrary: token n) (simp_all add: add.assoc)

lemma onPageCalls_append [simp]: "onPageCalls (xs @ ys) = onPageCalls xs @ onPageCalls ys"
  by (induction xs rule: onPageCalls.induct) simp_all

lemma onPageCalls_pageEvents:
  "onPageCalls (pageEvents True q f token n ps) = zip (map (parsePage f) ps) (cumulative n ps)"
  by (induction ps arbitrary: token n) simp_all

text \<open>
  Claim C6. \<^verbatim>\<open>retryCount\<close> is a non-negative number \<open>r\<close> (0 when the option is left
  out). With an \<^verbatim>\<open>onPage\<close> callback configured, the run of \<^verbatim>\<open>collectWith\<close> is:
  for each page appended in full, its fetch and then the callback with that page and the
  running row count, before the next fetch. The page on which the limit is reached is
  fetched and not passed to the callback. So the callback is called exactly once per page
  appended in full, in order.
\<close>

theorem collectWith_onPage:
  assumes "onPage this = Some callback"
    and "allCarryToken pre" and "belowLimit this 0 pre" and "onPageReturns this f 0 pre"
    and "retryCount this = Some (int r)"
  shows "(\<forall>m. maxRows this = Some m \<and> m \<le> rowsAvailable pre + length (PageResult.rows p) \<longrightarrow>
        fst (collectWith this (map Inr (pre @ [p]) @ rest) q f) =
          Reset # pageEvents True q f None 0 pre @ [FetchPageWith q (tokenAfter None pre)]
        \<and> onPageCalls (fst (collectWith this (map Inr (pre @ [p]) @ rest) q f)) =
          zip (map (parsePage f) pre) (cumulative 0 pre))
    \<and> (belowLimit this 0 (pre @ [p]) \<and> onPageReturns this f 0 (pre @ [p])
        \<and> \<not> truthy (nextToken p) \<longrightarrow>
        fst (collectWith this (map Inr (pre @ [p]) @ rest) q f) =
          Reset # pageEvents True q f None 0 (pre @ [p])
        \<and> onPageCalls (fst (collectWith this (map Inr (pre @ [p]) @ rest) q f)) =
          zip (map (parsePage f) (pre @ [p])) (cumulative 0 (pre @ [p])))"
proof (intro conjI allI impI)
  have fetches: "withinRetries this 0"
    using assms(5) by simp
  {
    fix m
    assume a: "maxRows this = Some m \<and> m \<le> rowsAvailable pre + length (PageResult.rows p)"
    then have run: "fst (collectWith this (map Inr (pre @ [p]) @ rest) q f) =
        Reset # pageEvents True q f None 0 pre @ [FetchPageWith q (tokenAfter None pre)]"
      using collectWith_truncates [where this = this and m = m and pre = pre and f = f
          and p = p and rest = rest and q = q] assms(1-4) fetches
      by simp
    then show "fst (collectWith this (map Inr (pre @ [p]) @ rest) q f) =
        Reset # pageEvents True q f None 0 pre @ [FetchPageWith q (tokenAfter None pre)]" .
    show "onPageCalls (fst (collectWith this (map Inr (pre @ [p]) @ rest) q f)) =
        zip (map (parsePage f) pre) (cumulative 0 pre)"
      unfolding run by (simp add: onPageCalls_pageEvents)
  }
  assume b: "belowLimit this 0 (pre @ [p]) \<and> onPageReturns this f 0 (pre @ [p])
    \<and> \<not> truthy (nextToken p)"
  then have run: "fst (collectWith this (map Inr (pre @ [p]) @ rest) q f) =
      Reset # pageEvents True q f None 0 (pre @ [p])"
    using collectWith_finishes [where pre = pre and this = this and p = p and f = f
        and rest = rest and q = q] assms(1-4) fetches
    by simp
  then show "fst (collectWith this (map Inr (pre @ [p]) @ rest) q f) =
      Reset # pageEvents True q f None 0 (pre @ [p])" .
  show "onPageCalls (fst (collectWith this (map Inr (pre @ [p]) @ rest) q f)) =
      zip (map (parsePage f) (pre @ [p])) (cumulative 0 (pre @ [p]))"
    unfolding run by (simp only: onPageCalls.simps onPageCalls_pageEvents)
qed

theorem collectWith_onPage_witness:
  "onPage (collectorObserving (Some 4) (\<lambda>page n. None) None) = Some (\<lambda>page n. None)
   \<and> allCarryToken [mkPage [1, 2, 3] (Some ''t'')]
   \<and> belowLimit (collectorObserving (Some 4) (\<lambda>page n. None) None) 0
        [mkPage [1, 2, 3] (Some ''t'')]
   \<and> onPageReturns (collectorObserving (Some 4) (\<lambda>page n. None) None) (\<lambda>row. row) 0
        [mkPage [1, 2, 3] (Some ''t'')]
   \<and> retryCount (collectorObserving (Some 4) (\<lambda>page n. None) None) = Some (int 0)
   \<and> fst (collectWith (collectorObserving (Some 4) (\<lambda>page n. None) None)
        (map Inr ([mkPage [1, 2, 3] (Some ''t'')] @ [mkPage [4, 5] None]) @ []) ''query-id-123''
        (\<lambda>row. row))
      = [Reset, FetchPageWith ''query-id-123'' None, OnPage (mkPage [1, 2, 3] (Some ''t'')) 3,
         FetchPageWith ''query-id-123'' (Some ''t'')]
   \<and> \<not> truthy (nextToken (mkPage [2] None))
   \<and> retryCount (collectorObserving None (\<lambda>page n. None) None) = Some (int 0)
   \<and> fst (collectWith (collectorObserving None (\<lambda>page n. None) None)
        (map Inr ([mkPage [1] (Some ''t'')] @ [mkPage [2] None]) @ []) ''query-id-123''
        (\<lambda>row. row))
      = [Reset, FetchPageWith ''query-id-123'' None, OnPage (mkPage [1] (Some ''t'')) 1,
         FetchPageWith ''query-id-123'' (Some ''t''), OnPage (mkPage [2] None) 2]"
proof -
  let ?limited = "collectorObserving (Some 4) (\<lambda>page n. None) None"
  let ?unlimited = "collectorObserving None (\<lambda>page n. None) None"
  have limited: "onPage ?limited = Some (\<lambda>page n. None)"
    "allCarryToken [mkPage [1, 2, 3] (Some ''t'')]"
    "belowLimit ?limited 0 [mkPage [1, 2, 3] (Some ''t'')]"
    "onPageReturns ?limited (\<lambda>row. row) 0 [mkPage [1, 2, 3] (Some ''t'')]"
    "retryCount ?limited = Some (int 0)"
    by (simp_all add: allCarryToken_def belowLimit_def onPageReturns_def truthy_def mkPage_def)
  have unlimited: "onPage ?unlimited = Some (\<lambda>page n. None)"
    "allCarryToken [mkPage [1] (Some ''t'')]"
    "belowLimit ?unlimited 0 [mkPage [1] (Some ''t'')]"
    "onPageReturns ?unlimited (\<lambda>row. row) 0 [mkPage [1] (Some ''t'')]"
    "retryCount ?unlimited = Some (int 0)"
    by (simp_all add: allCarryToken_def belowLimit_def onPageReturns_def truthy_def mkPage_def)
  show ?thesis
    using collectWith_onPage [OF limited, where p = "mkPage [4, 5] None" and rest = "[]"
        and q = "''query-id-123''"]
      collectWith_onPage [OF unlimited, where p = "mkPage [2] None" and rest = "[]"
        and q = "''query-id-123''"]
      limited
    by (simp add: belowLimit_def onPageReturns_def truthy_def mkPage_def parsePage_def)
qed

section \<open>Batch processing\<close>

lemma processBatches_loop_step:
  assumes "belowLimit this sofar [p]"
    and "batchProcessor (map f (PageResult.rows p)) k = None"
    and "truthy (nextToken p)"
    and "withinRetries this 0"
  shows "processBatches_loop this (Inr p # pager) q f batchProcessor token k sofar =
    prepend (batchEvents q f token k [p])
      (processBatches_loop this pager q f batchProcessor (nextToken p) (Suc k)
         (sofar + length (PageResult.rows p)))"
  using assms
  by (subst processBatches_loop.simps)
    (auto simp: fetchPageWithRetry_page maxRowsReached_def belowLimit_def split: option.splits)

lemma processBatches_loop_delivered:
  assumes "allCarryToken ps"
    and "belowLimit this sofar ps"
    and "batchReturns batchProcessor f k ps"
    and "withinRetries this 0"
  shows "processBatches_loop this (map Inr ps @ pager) q f batchProcessor token k sofar =
    prepend (batchEvents q f token k ps)
      (processBatches_loop this pager q f batchProcessor (tokenAfter token ps) (k + length ps)
         (sofar + rowsAvailable ps))"
  using assms
proof (induction ps arbitrary: token k sofar)
  case Nil
  then show ?case by simp
next
  case (Cons p ps)
  from Cons.prems have p: "belowLimit this sofar [p]"
      "batchProcessor (map f (PageResult.rows p)) k = None" "truthy (nextToken p)"
    and ps: "allCarryToken ps" "belowLimit this (sofar + length (PageResult.rows p)) ps"
      "batchReturns batchProcessor f (Suc k) ps"
    by (simp_all add: allCarryToken_def belowLimit_Cons [of this _ p ps])
  show ?case
    using processBatches_loop_step [where batchProcessor = batchProcessor and f = f and p = p
        and k = k and this = this and sofar = sofar and pager = "map Inr ps @ pager" and q = q
        and token = token] p Cons.prems(4)
    by (simp add: Cons.IH [OF ps Cons.prems(4)] add.assoc)
qed

text \<open>The last page delivered: it has no token, or the total reaches the limit with it.\<close>

lemma processBatches_loop_last:
  assumes "batchProcessor (map f (PageResult.rows p)) k = None"
    and "\<not> truthy (nextToken p) \<or> \<not> belowLimit this sofar [p]"
    and "withinRetries this 0"
  shows "processBatches_loop this (Inr p # pager) q f batchProcessor token k sofar =
    (batchEvents q f token k [p],
     Returned \<lparr> BatchResult.totalRows = sofar + length (PageResult.rows p),
       BatchResult.pageCount = Suc k \<rparr>)"
  using assms
  by (subst processBatches_loop.simps)
    (auto simp: fetchPageWithRetry_page maxRowsReached_def belowLimit_def split: option.splits)

lemma processBatches_loop_throws:
  assumes "batchProcessor (map f (PageResult.rows p)) k = Some err"
    and "withinRetries this 0"
  shows "processBatches_loop this (Inr p # pager) q f batchProcessor token k sofar =
    (batchEvents q f token k [p], Threw err)"
  using assms
  by (subst processBatches_loop.simps) (simp add: fetchPageWithRetry_page)

lemma batchEvents_append:
  "batchEvents q f token k (ps @ qs) = batchEvents q f token k ps
      @ batchEvents q f (tokenAfter token ps) (k + length ps) qs"
  by (induction ps arbitrary: token k) simp_all

lemma batchReturns_append:
  "batchReturns bp f k (ps @ qs) \<longleftrightarrow> batchReturns bp f k ps \<and> batchReturns bp f (k + length ps) qs"
  by (induction ps arbitrary: k) simp_all

lemma batchCalls_append [simp]: "batchCalls (xs @ ys) = batchCalls xs @ batchCalls ys"
  by (induction xs rule: batchCalls.induct) simp_all

lemma batchCalls_batchEvents:
  "batchCalls (batchEvents q f token k ps) =
     zip (map (\<lambda>p. map f (PageResult.rows p)) ps) [k..<k + length ps]"
proof (induction ps arbitrary: token k)
  case Nil
  then show ?case by simp
next
  case (Cons p ps)
  have "[k..<k + length (p # ps)] = k # [Suc k..<Suc k + length ps]"
    by (simp add: upt_rec)
  then show ?case
    using Cons.IH [of "nextToken p" "Suc k"] by simp
qed

lemma fetchCalls_batchEvents [simp]: "fetchCalls (batchEvents q f token k ps) = length ps"
  by (induction ps arbitrary: token k) simp_all

lemma processBatches_run:
  assumes "allCarryToken pre" and "belowLimit this 0 pre"
    and "batchReturns batchProcessor f 0 (pre @ [p])"
    and "\<not> truthy (nextToken p) \<or> \<not> belowLimit this 0 (pre @ [p])"
    and "withinRetries this 0"
  shows "processBatches this (map Inr (pre @ [p]) @ rest) q f batchProcessor =
    (Reset # batchEvents q f None 0 (pre @ [p]),
     Returned \<lparr> BatchResult.totalRows = rowsAvailable (pre @ [p]),
       BatchResult.pageCount = Suc (length pre) \<rparr>)"
proof -
  from assms(3) have ret: "batchReturns batchProcessor f 0 pre"
    "batchProcessor (map f (PageResult.rows p)) (length pre) = None"
    by (simp_all add: batchReturns_append)
  from assms(2,4) have stop: "\<not> truthy (nextToken p) \<or> \<not> belowLimit this (rowsAvailable pre) [p]"
    by (auto simp: belowLimit_append)
  show ?thesis
    using processBatches_loop_delivered [OF assms(1,2) ret(1) assms(5), of "Inr p # rest" q None]
      processBatches_loop_last [where batchProcessor = batchProcessor and f = f and p = p
        and k = "length pre" and this = this and sofar = "rowsAvailable pre" and pager = rest
        and q = q and token = "tokenAfter None pre"] ret(2) stop assms(5)
    by (simp add: processBatches_def batchEvents_append)
qed

text \<open>
  Claim C5. \<^verbatim>\<open>retryCount\<close> is a non-negative number \<open>r\<close> (0 when the option is left
  out). \<^verbatim>\<open>processBatches\<close> fetches page after page and hands each one, with all of
  its rows and the indices 0, 1, 2, ..., to \<^verbatim>\<open>batchProcessor\<close> before the next fetch.
  It stops after the first delivered page that has no token or with which the total reaches
  \<^verbatim>\<open>maxRows\<close>. \<^verbatim>\<open>totalRows\<close> is the sum of the delivered pages' row counts, and it
  exceeds \<^verbatim>\<open>maxRows\<close> by at most the row count of the last delivered page.
\<close>

theorem processBatches_delivers:
  assumes "allCarryToken pre" and "belowLimit this 0 pre"
    and "batchReturns batchProcessor f 0 (pre @ [p])"
    and "\<not> truthy (nextToken p) \<or> \<not> belowLimit this 0 (pre @ [p])"
    and "retryCount this = Some (int r)"
  shows "processBatches this (map Inr (pre @ [p]) @ rest) q f batchProcessor =
      (Reset # batchEvents q f None 0 (pre @ [p]),
       Returned \<lparr> BatchResult.totalRows = rowsAvailable (pre @ [p]),
         BatchResult.pageCount = length pre + 1 \<rparr>)
    \<and> batchCalls (fst (processBatches this (map Inr (pre @ [p]) @ rest) q f batchProcessor)) =
      zip (map (\<lambda>p. map f (PageResult.rows p)) (pre @ [p])) [0..<length pre + 1]
    \<and> (\<forall>m. maxRows this = Some m \<longrightarrow>
          rowsAvailable (pre @ [p]) \<le> m + length (PageResult.rows p))"
proof (intro conjI allI impI)
  show run: "processBatches this (map Inr (pre @ [p]) @ rest) q f batchProcessor =
      (Reset # batchEvents q f None 0 (pre @ [p]),
       Returned \<lparr> BatchResult.totalRows = rowsAvailable (pre @ [p]),
         BatchResult.pageCount = length pre + 1 \<rparr>)"
    using processBatches_run [OF assms(1-4)] assms(5) by simp
  show "batchCalls (fst (processBatches this (map Inr (pre @ [p]) @ rest) q f batchProcessor)) =
      zip (map (\<lambda>p. map f (PageResult.rows p)) (pre @ [p])) [0..<length pre + 1]"
    unfolding run using batchCalls_batchEvents [of q f None 0 "pre @ [p]"] by simp
next
  fix m
  assume "maxRows this = Some m"
  from belowLimit_total [OF this _ assms(2)]
  show "rowsAvailable (pre @ [p]) \<le> m + length (PageResult.rows p)"
    by simp
qed

theorem processBatches_delivers_witness:
  "allCarryToken [mkPage [1, 2 :: nat] (Some ''t'')]
   \<and> belowLimit (collectorWith (Some 3) None) 0 [mkPage [1, 2 :: nat] (Some ''t'')]
   \<and> batchReturns (\<lambda>rs i. None :: string option) (\<lambda>row. row) 0
        ([mkPage [1, 2 :: nat] (Some ''t'')] @ [mkPage [3, 4] None])
   \<and> \<not> truthy (nextToken (mkPage [3, 4 :: nat] None))
   \<and> \<not> belowLimit (collectorWith (Some 3) None) 0
        ([mkPage [1, 2 :: nat] (Some ''t'')] @ [mkPage [3, 4] None])
   \<and> retryCount (collectorWith (Some 3) None) = Some (int 0)
   \<and> processBatches (collectorWith (Some 3) None)
        (map Inr ([mkPage [1, 2] (Some ''t'')] @ [mkPage [3, 4] None]) @ []) ''query-id-123''
        (\<lambda>row. row) (\<lambda>rs i. None)
      = ([Reset, FetchPageWith ''query-id-123'' None, BatchProcessor [1, 2] 0,
          FetchPageWith ''query-id-123'' (Some ''t''), BatchProcessor [3, 4] 1],
         Returned \<lparr> BatchResult.totalRows = 4, BatchResult.pageCount = 2 \<rparr>)
   \<and> batchCalls (fst (processBatches (collectorWith (Some 3) None)
        (map Inr ([mkPage [1, 2] (Some ''t'')] @ [mkPage [3, 4] None]) @ []) ''query-id-123''
        (\<lambda>row. row) (\<lambda>rs i. None)))
      = [([1, 2], 0), ([3, 4], 1)]
   \<and> rowsAvailable ([mkPage [1, 2 :: nat] (Some ''t'')] @ [mkPage [3, 4] None])
      \<le> 3 + length (PageResult.rows (mkPage [3, 4 :: nat] None))"
proof -
  have hyps: "allCarryToken [mkPage [1, 2 :: nat] (Some ''t'')]"
    "belowLimit (collectorWith (Some 3) None) 0 [mkPage [1, 2 :: nat] (Some ''t'')]"
    "batchReturns (\<lambda>rs i. None :: string option) (\<lambda>row. row) 0
        ([mkPage [1, 2 :: nat] (Some ''t'')] @ [mkPage [3, 4] None])"
    "\<not> truthy (nextToken (mkPage [3, 4 :: nat] None))
        \<or> \<not> belowLimit (collectorWith (Some 3) None) 0
             ([mkPage [1, 2 :: nat] (Some ''t'')] @ [mkPage [3, 4] None])"
    "retryCount (collectorWith (Some 3) None) = Some (int 0)"
    by (simp_all add: allCarryToken_def belowLimit_def truthy_def mkPage_def)
  have stop: "\<not> truthy (nextToken (mkPage [3, 4 :: nat] None))"
    "\<not> belowLimit (collectorWith (Some 3) None) 0
        ([mkPage [1, 2 :: nat] (Some ''t'')] @ [mkPage [3, 4] None])"
    by (simp_all add: belowLimit_def truthy_def mkPage_def)
  have limit: "maxRows (collectorWith (Some 3) None) = Some 3"
    by simp
  have idx: "[0..<Suc (Suc 0)] = [0, Suc 0]"
    by (simp add: upt_rec)
  show ?thesis
    using processBatches_delivers [OF hyps, of "[]" "''query-id-123''"] hyps(1-3) stop limit
    by (simp add: mkPage_def idx)
qed

section \<open>Callback errors\<close>

text \<open>
  Claim C7. When \<^verbatim>\<open>onPage\<close> throws on a page of \<^verbatim>\<open>collectWith\<close>, or
  \<^verbatim>\<open>batchProcessor\<close> on a page of \<^verbatim>\<open>processBatches\<close>, the call ends by throwing that
  same error: the callback call is the last event of the run (no retry, no sleep, no further
  fetch, whatever number of retries \<^verbatim>\<open>retryCount = r\<close> is configured), and no result
  is returned.
\<close>

theorem callback_errors_propagate:
  assumes "retryCount this = Some (int r)"
  shows "(allCarryToken pre \<and> belowLimit this 0 (pre @ [p]) \<and> onPageReturns this f 0 pre
      \<and> onPage this = Some callback
      \<and> callback (parsePage f p) (rowsAvailable (pre @ [p])) = Some err \<longrightarrow>
      collectWith this (map Inr (pre @ [p]) @ rest) q f =
        (Reset # pageEvents True q f None 0 (pre @ [p]), Threw err))
   \<and> (allCarryToken pre \<and> belowLimit this 0 pre \<and> batchReturns batchProcessor f 0 pre
      \<and> batchProcessor (map f (PageResult.rows p)) (length pre) = Some err \<longrightarrow>
      processBatches this (map Inr (pre @ [p]) @ rest) q f batchProcessor =
        (Reset # batchEvents q f None 0 (pre @ [p]), Threw err))"
proof (intro conjI impI)
  have fetches: "withinRetries this 0"
    using assms by simp
  {
    assume a: "allCarryToken pre \<and> belowLimit this 0 (pre @ [p]) \<and> onPageReturns this f 0 pre
        \<and> onPage this = Some callback
        \<and> callback (parsePage f p) (rowsAvailable (pre @ [p])) = Some err"
    then have below: "belowLimit this 0 pre" "belowLimit this (length (allRows f pre)) [p]"
      by (simp_all add: belowLimit_append)
    from a have throws: "callback (parsePage f p)
        (length (allRows f pre) + length (PageResult.rows p)) = Some err"
      by simp
    from a show "collectWith this (map Inr (pre @ [p]) @ rest) q f =
        (Reset # pageEvents True q f None 0 (pre @ [p]), Threw err)"
      using collectWith_appended [where pre = pre and this = this and f = f
          and pager = "Inr p # rest" and q = q] below(1)
        collectWith_loop_onPage_throws [where this = this and collected = "allRows f pre"
          and p = p and callback = callback and f = f and err = err and pager = rest and q = q
          and token = "tokenAfter None pre" and n = "length pre"] below(2) throws fetches
      by (simp add: pageEvents_append)
  }
  assume b: "allCarryToken pre \<and> belowLimit this 0 pre \<and> batchReturns batchProcessor f 0 pre
      \<and> batchProcessor (map f (PageResult.rows p)) (length pre) = Some err"
  then show "processBatches this (map Inr (pre @ [p]) @ rest) q f batchProcessor =
      (Reset # batchEvents q f None 0 (pre @ [p]), Threw err)"
    using processBatches_loop_delivered [where ps = pre and this = this and sofar = 0
        and batchProcessor = batchProcessor and f = f and pager = "Inr p # rest" and q = q
        and token = None and k = 0]
      processBatches_loop_throws [where batchProcessor = batchProcessor and f = f and p = p
        and k = "length pre" and err = err and this = this and pager = rest and q = q
        and token = "tokenAfter None pre" and sofar = "rowsAvailable pre"] fetches
    by (simp add: processBatches_def batchEvents_append)
qed

theorem callback_errors_propagate_witness:
  "retryCount (collectorObserving None (\<lambda>page n. if n = 2 then Some ''boom'' else None)
        (Some 3)) = Some (int 3)
   \<and> allCarryToken [mkPage [1] (Some ''t'')]
   \<and> belowLimit (collectorObserving None (\<lambda>page n. if n = 2 then Some ''boom'' else None)
        (Some 3)) 0 ([mkPage [1] (Some ''t'')] @ [mkPage [2] None])
   \<and> onPageReturns (collectorObserving None (\<lambda>page n. if n = 2 then Some ''boom'' else None)
        (Some 3)) (\<lambda>row. row) 0 [mkPage [1] (Some ''t'')]
   \<and> collectWith (collectorObserving None (\<lambda>page n. if n = 2 then Some ''boom'' else None)
        (Some 3))
        (map Inr ([mkPage [1] (Some ''t'')] @ [mkPage [2] None]) @ []) ''query-id-123''
        (\<lambda>row. row)
      = ([Reset, FetchPageWith ''query-id-123'' None, OnPage (mkPage [1] (Some ''t'')) 1,
          FetchPageWith ''query-id-123'' (Some ''t''), OnPage (mkPage [2] None) 2],
         Threw ''boom'')
   \<and> retryCount (collectorWith None (Some 3)) = Some (int 3)
   \<and> belowLimit (collectorWith None (Some 3)) 0 [mkPage [1] (Some ''t'')]
   \<and> batchReturns (\<lambda>rs i. if i = 1 then Some ''boom'' else None) (\<lambda>row. row) 0
        [mkPage [1] (Some ''t'')]
   \<and> processBatches (collectorWith None (Some 3))
        (map Inr ([mkPage [1] (Some ''t'')] @ [mkPage [2] None]) @ []) ''query-id-123''
        (\<lambda>row. row) (\<lambda>rs i. if i = 1 then Some ''boom'' else None)
      = ([Reset, FetchPageWith ''query-id-123'' None, BatchProcessor [1] 0,
          FetchPageWith ''query-id-123'' (Some ''t''), BatchProcessor [2] 1],
         Threw ''boom'')"
proof -
  let ?observing =
    "collectorObserving None (\<lambda>page n. if n = 2 then Some ''boom'' else None) (Some 3)"
  have observing: "retryCount ?observing = Some (int 3)"
    and plain: "retryCount (collectorWith None (Some 3)) = Some (int 3)"
    by simp_all
  show ?thesis
    using callback_errors_propagate [OF observing, where pre = "[mkPage [1] (Some ''t'')]"
        and p = "mkPage [2] None" and f = "\<lambda>row. row"
        and callback = "\<lambda>page n. if n = 2 then Some ''boom'' else None" and err = "''boom''"
        and rest = "[]" and q = "''query-id-123''"
        and batchProcessor = "\<lambda>rs i. if i = 1 then Some ''boom'' else None"]
      callback_errors_propagate [OF plain, where pre = "[mkPage [1] (Some ''t'')]"
        and p = "mkPage [2] None" and f = "\<lambda>row. row"
        and callback = "\<lambda>page n. None" and err = "''boom''"
        and rest = "[]" and q = "''query-id-123''"
        and batchProcessor = "\<lambda>rs i. if i = 1 then Some ''boom'' else None"]
    by (simp add: allCarryToken_def belowLimit_def onPageReturns_def truthy_def mkPage_def
        parsePage_def)
qed

section \<open>Streaming\<close>

lemma yielded_append [simp]: "yielded (xs @ ys) = yielded xs @ yielded ys"
  by (induction xs rule: yielded.induct) simp_all

lemma yielded_Yields [simp]: "yielded (map Yield xs) = xs"
  by (induction xs) simp_all

lemma stream_rows_unlimited:
  "maxRows this = None \<Longrightarrow> stream_rows this count rs = (map Yield rs, count + length rs, False)"
  by (induction rs arbitrary: count) (simp_all add: maxRowsReached_def)

lemma stream_rows_limited:
  "maxRows this = Some m \<Longrightarrow>
   stream_rows this count rs =
     (map Yield (take (m - count) rs), count + min (m - count) (length rs), m - count < length rs)"
proof (induction rs arbitrary: count)
  case Nil
  then show ?case by simp
next
  case (Cons row rs)
  show ?case
  proof (cases "m \<le> count")
    case True
    with Cons.prems show ?thesis by (simp add: maxRowsReached_def)
  next
    case False
    then have "m - count = Suc (m - Suc count)" by simp
    with False Cons.prems Cons.IH [OF Cons.prems, of "Suc count"] show ?thesis
      by (simp add: maxRowsReached_def)
  qed
qed

text \<open>The retry loop yields nothing and calls no callback.\<close>

lemma yielded_fetchPageWithRetry_loop:
  "yielded (fst (fetchPageWithRetry_loop this pager q f token attempt lastError)) = []"
proof (induction this pager q f token attempt lastError rule: fetchPageWithRetry_loop.induct)
  case (1 this pager q f token attempt lastError)
  show ?case
  proof (cases "withinRetries this attempt")
    case False
    then show ?thesis
      by (subst fetchPageWithRetry_loop.simps) simp
  next
    case True
    show ?thesis
    proof (cases pager)
      case Nil
      with True show ?thesis by (simp add: fetchPageWithRetry_loop_Nil)
    next
      case (Cons answer rest)
      show ?thesis
      proof (cases answer)
        case (Inl err)
        with True Cons "1.IH" show ?thesis
          by (fastforce simp: fetchPageWithRetry_loop_error split: prod.splits)
      next
        case (Inr page)
        with True Cons show ?thesis by (simp add: fetchPageWithRetry_loop_page)
      qed
    qed
  qed
qed

lemma yielded_fetchPageWithRetry:
  "fetchPageWithRetry this pager q f token = (evs, r) \<Longrightarrow> yielded evs = []"
  using yielded_fetchPageWithRetry_loop [of this pager q f token 0 None]
  by (simp add: fetchPageWithRetry_def)


lemma stream_loop_bound:
  assumes "maxRows this = Some m"
  shows "length (yielded (fst (stream_loop this pager q f token count))) \<le> m - count"
proof (induction "length pager" arbitrary: pager token count rule: less_induct)
  case less
  obtain evs out pager' where fetch:
    "fetchPageWithRetry this pager q f token = (evs, out, pager')"
    by (metis prod_cases3)
  have quiet: "yielded evs = []"
    using fetch by (rule yielded_fetchPageWithRetry)
  show ?case
  proof (cases out)
    case (Returned page)
    let ?rs = "PageResult.rows page"
    let ?count' = "count + min (m - count) (length ?rs)"
    have rows: "stream_rows this count ?rs =
        (map Yield (take (m - count) ?rs), ?count', m - count < length ?rs)"
      using assms by (rule stream_rows_limited)
    have shorter: "length pager' < length pager"
      using fetch Returned fetchPageWithRetry_shorter by blast
    have rec: "length (yielded (fst (stream_loop this pager' q f (nextToken page) ?count')))
        \<le> m - ?count'"
      by (rule less.hyps [OF shorter])
    show ?thesis
      using rec
      by (subst stream_loop.simps) (auto simp: fetch Returned rows quiet split: bool.splits)
  qed (subst stream_loop.simps, simp add: fetch quiet)+
qed

lemma stream_loop_limit_reached:
  assumes "maxRows this = Some m" and "m \<le> count"
  shows "yielded (fst (stream_loop this pager q f token count)) = []"
  using stream_loop_bound [OF assms(1), of pager q f token count] assms(2) by simp

lemma stream_matches_collect:
  assumes "\<And>m. maxRows this = Some m \<Longrightarrow> length collected \<le> m"
    and "snd (collectWith_loop this pager q f collected token n) = Returned res"
  shows "collected @ yielded (fst (stream_loop this pager q f token (length collected)))
    = CollectResult.rows res"
  using assms
proof (induction "length pager" arbitrary: pager token collected n rule: less_induct)
  case less
  obtain evs out pager' where fetch:
    "fetchPageWithRetry this pager q f token = (evs, out, pager')"
    by (metis prod_cases3)
  have quiet: "yielded evs = []"
    using fetch by (rule yielded_fetchPageWithRetry)
  show ?case
  proof (cases out)
    case (Returned page)
    let ?rs = "PageResult.rows page"
    have shorter: "length pager' < length pager"
      using fetch Returned fetchPageWithRetry_shorter by blast
    note collect = collectWith_loop.simps [of this pager q f collected token n]
    note strm = stream_loop.simps [of this pager q f token "length collected"]
    show ?thesis
    proof (cases "maxRowsCheck this collected page")
      case (Some remaining)
      then obtain m where m: "maxRows this = Some m"
        and reach: "m \<le> length collected + length ?rs"
        and remaining: "remaining = int m - int (length collected)"
        by (auto simp: maxRowsCheck_def Let_def split: option.splits if_splits)
      from less.prems(1) [OF m] have le: "length collected \<le> m" .
      have slice: "slice0 ?rs remaining = take (m - length collected) ?rs"
        using le by (simp add: remaining slice0_def nat_diff_distrib')
      have res: "CollectResult.rows res = collected @ take (m - length collected) ?rs"
        using less.prems(2)
        by (subst (asm) collect) (auto simp: fetch Returned Some slice collectResult_def)
      have rows: "stream_rows this (length collected) ?rs =
          (map Yield (take (m - length collected) ?rs),
           length collected + min (m - length collected) (length ?rs),
           m - length collected < length ?rs)"
        using m by (rule stream_rows_limited)
      have full: "length collected + min (m - length collected) (length ?rs) = m"
        using le reach by simp
      have after: "yielded (fst (stream_loop this pager' q f (nextToken page) m)) = []"
        using m by (rule stream_loop_limit_reached) simp
      have "yielded (fst (stream_loop this pager q f token (length collected)))
          = take (m - length collected) ?rs"
        by (subst strm) (auto simp: fetch Returned rows quiet full after split: bool.splits)
      with res show ?thesis by simp
    next
      case None
      have rows: "stream_rows this (length collected) ?rs =
          (map Yield ?rs, length collected + length ?rs, False)"
      proof (cases "maxRows this")
        case None
        then show ?thesis by (rule stream_rows_unlimited)
      next
        case (Some m)
        with \<open>maxRowsCheck this collected page = None\<close>
        have "length collected + length ?rs < m"
          by (auto simp: maxRowsCheck_def Let_def split: if_splits)
        then have "take (m - length collected) ?rs = ?rs"
          "min (m - length collected) (length ?rs) = length ?rs"
          "\<not> m - length collected < length ?rs"
          by simp_all
        then show ?thesis
          using stream_rows_limited [OF Some, of "length collected" ?rs] by simp
      qed
      have inv: "length (collected @ ?rs) \<le> m" if "maxRows this = Some m" for m
        using that None by (auto simp: maxRowsCheck_def Let_def split: if_splits)
      obtain cbEvs thrown where cb:
        "callOnPage this page (length collected + length ?rs) = (cbEvs, thrown)"
        by (cases "callOnPage this page (length collected + length ?rs)") auto
      show ?thesis
      proof (cases thrown)
        case (Some err)
        with less.prems(2) show ?thesis
          by (subst (asm) collect) (simp add: fetch Returned None cb)
      next
        case no_throw: None
        show ?thesis
        proof (cases "truthy (nextToken page)")
          case True
          have "snd (collectWith_loop this pager' q f (collected @ ?rs) (nextToken page) (n + 1))
              = Returned res"
            using less.prems(2)
            by (subst (asm) collect) (simp add: fetch Returned None cb no_throw True)
          from less.hyps [OF shorter inv this]
          have "(collected @ ?rs) @ yielded (fst (stream_loop this pager' q f (nextToken page)
              (length (collected @ ?rs)))) = CollectResult.rows res" .
          moreover have "yielded (fst (stream_loop this pager q f token (length collected)))
              = ?rs @ yielded (fst (stream_loop this pager' q f (nextToken page)
                  (length (collected @ ?rs))))"
            by (subst strm) (simp add: fetch Returned rows quiet True)
          ultimately show ?thesis by simp
        next
          case False
          have "CollectResult.rows res = collected @ ?rs"
            using less.prems(2)
            by (subst (asm) collect)
              (auto simp: fetch Returned None cb no_throw False collectResult_def)
          moreover have "yielded (fst (stream_loop this pager q f token (length collected)))
              = ?rs"
            by (subst strm) (simp add: fetch Returned rows quiet False)
          ultimately show ?thesis by simp
        qed
      qed
    qed
  qed (use less.prems(2) in \<open>subst (asm) collectWith_loop.simps, simp add: fetch\<close>)+
qed

text \<open>
  Claim C4. For every collector, pager behaviour and parser: when \<^verbatim>\<open>collectWith\<close> returns
  a result, the elements \<^verbatim>\<open>stream\<close> yields on the same input are exactly the
  \<^verbatim>\<open>rows\<close> of that result, in the same order; and with \<^verbatim>\<open>maxRows = m\<close> configured
  \<^verbatim>\<open>stream\<close> never yields more than \<open>m\<close> elements.
\<close>

theorem stream_yields_collected_rows:
  "(snd (collectWith this pager q f) = Returned res \<longrightarrow>
      yielded (fst (stream this pager q f)) = CollectResult.rows res)
   \<and> (maxRows this = Some m \<longrightarrow> length (yielded (fst (stream this pager q f))) \<le> m)"
proof (intro conjI impI)
  assume "snd (collectWith this pager q f) = Returned res"
  then have "snd (collectWith_loop this pager q f [] None 0) = Returned res"
    by (simp add: collectWith_def)
  from stream_matches_collect [OF _ this]
  show "yielded (fst (stream this pager q f)) = CollectResult.rows res"
    by (simp add: stream_def)
next
  assume "maxRows this = Some m"
  from stream_loop_bound [OF this, of pager q f None 0]
  show "length (yielded (fst (stream this pager q f))) \<le> m"
    by (simp add: stream_def)
qed


theorem stream_yields_collected_rows_witness:
  "snd (collectWith (collectorWith (Some 4) None)
        [Inr (mkPage [1, 2, 3] (Some ''t'')), Inr (mkPage [4, 5] None)] ''query-id-123''
        (\<lambda>row. row))
      = Returned \<lparr> CollectResult.rows = [1, 2, 3, 4], totalRows = 4, pageCount = 2,
          truncated = True \<rparr>
   \<and> yielded (fst (stream (collectorWith (Some 4) None)
        [Inr (mkPage [1, 2, 3] (Some ''t'')), Inr (mkPage [4, 5] None)] ''query-id-123''
        (\<lambda>row. row)))
      = [1, 2, 3, 4]
   \<and> maxRows (collectorWith (Some 4) None) = Some 4
   \<and> length (yielded (fst (stream (collectorWith (Some 4) None)
        [Inr (mkPage [1, 2, 3] (Some ''t'')), Inr (mkPage [4, 5] None)] ''query-id-123''
        (\<lambda>row. row)))) \<le> 4"
proof -
  have returned: "snd (collectWith (collectorWith (Some 4) None)
        [Inr (mkPage [1, 2, 3] (Some ''t'')), Inr (mkPage [4, 5] None)] ''query-id-123''
        (\<lambda>row. row))
      = Returned \<lparr> CollectResult.rows = [1, 2, 3, 4], totalRows = 4, pageCount = 2,
          truncated = True \<rparr>"
    by code_simp
  have limit: "maxRows (collectorWith (Some 4) None) = Some 4"
    by simp
  show ?thesis
    using stream_yields_collected_rows [of "collectorWith (Some 4) None"
        "[Inr (mkPage [1, 2, 3] (Some ''t'')), Inr (mkPage [4, 5] None)]" "''query-id-123''"
        "\<lambda>row. row"
        "\<lparr> CollectResult.rows = [1, 2, 3, 4], totalRows = 4, pageCount = 2,
          truncated = True \<rparr>" 4]
      returned limit
    by simp
qed


section \<open>The first fetch\<close>

lemma fetchPageWithRetry_calls:
  assumes "withinRetries this 0"
  shows "1 \<le> fetchCalls (fst (fetchPageWithRetry this pager q f token))"
proof (cases pager)
  case Nil
  then show ?thesis by (simp add: fetchPageWithRetry_Nil [OF assms])
next
  case (Cons answer rest)
  then show ?thesis
    using assms
    by (cases answer)
      (simp_all add: fetchPageWithRetry_def fetchPageWithRetry_loop_error
        fetchPageWithRetry_loop_page split: prod.splits)
qed

lemma fetchPageWithRetry_calls':
  "withinRetries this 0 \<Longrightarrow> fetchPageWithRetry this pager q f token = (evs, r)
     \<Longrightarrow> 1 \<le> fetchCalls evs"
  using fetchPageWithRetry_calls [of this pager q f token] by simp


lemma stream_loop_calls:
  assumes "withinRetries this 0"
  shows "1 \<le> fetchCalls (fst (stream_loop this pager q f token count))"
proof -
  obtain evs out pager' where fetch:
    "fetchPageWithRetry this pager q f token = (evs, out, pager')"
    by (metis prod_cases3)
  from fetchPageWithRetry_calls' [OF assms this] show ?thesis
    by (subst stream_loop.simps)
      (auto simp: fetch split: outcome.splits bool.splits prod.splits)
qed





lemma batchCalls_quiet [simp]:
  "batchCalls (concat (replicate n [FetchPageWith q token, Sleep d])) = []"
  by (induction n) simp_all




section \<open>Streaming past the limit\<close>

lemma fetchCalls_Yields [simp]:
  "fetchCalls (map Yield xs) = 0" "fetchCalls (map (Yield \<circ> f) ys) = 0"
  by (induction xs, simp_all) (induction ys, simp_all)

lemma yielded_parsed [simp]: "yielded (map (Yield \<circ> f) xs) = map f xs"
  by (induction xs) simp_all

lemma stream_loop_step:
  assumes "\<And>m. maxRows this = Some m \<Longrightarrow> count + length (PageResult.rows p) \<le> m"
    and "truthy (nextToken p)"
    and "withinRetries this 0"
  shows "stream_loop this (Inr p # pager) q f token count =
    prepend (streamEvents q f token [p])
      (stream_loop this pager q f (nextToken p) (count + length (PageResult.rows p)))"
proof -
  have "stream_rows this count (map f (PageResult.rows p)) =
      (map Yield (map f (PageResult.rows p)), count + length (PageResult.rows p), False)"
  proof (cases "maxRows this")
    case None
    then show ?thesis using stream_rows_unlimited [OF None, of count] by simp
  next
    case (Some m)
    from assms(1) [OF this] show ?thesis
      using stream_rows_limited [OF Some, of count "map f (PageResult.rows p)"] by simp
  qed
  with assms(2) show ?thesis
    by (subst stream_loop.simps) (simp add: fetchPageWithRetry_page [OF assms(3)])
qed

lemma stream_loop_streamed:
  assumes "allCarryToken ps"
    and "\<And>m. maxRows this = Some m \<Longrightarrow> count + rowsAvailable ps \<le> m"
    and "withinRetries this 0"
  shows "stream_loop this (map Inr ps @ pager) q f token count =
    prepend (streamEvents q f token ps)
      (stream_loop this pager q f (tokenAfter token ps) (count + rowsAvailable ps))"
  using assms
proof (induction ps arbitrary: token count)
  case Nil
  then show ?case by simp
next
  case (Cons p ps)
  from Cons.prems have p: "truthy (nextToken p)" and ps: "allCarryToken ps"
    by (simp_all add: allCarryToken_def)
  have here: "count + length (PageResult.rows p) \<le> m" if "maxRows this = Some m" for m
    using Cons.prems(2) [OF that] by simp
  have later: "count + length (PageResult.rows p) + rowsAvailable ps \<le> m"
    if "maxRows this = Some m" for m
    using Cons.prems(2) [OF that] by (simp add: add.assoc)
  show ?case
    using stream_loop_step [of this count p "map Inr ps @ pager" q f token,
        OF here p Cons.prems(3)]
      Cons.IH [OF ps later Cons.prems(3)]
    by (simp add: add.assoc)
qed

text \<open>At the limit, a page that has a row or no token ends the generator.\<close>

lemma stream_loop_stops:
  assumes "maxRows this = Some m"
    and "PageResult.rows g \<noteq> [] \<or> \<not> truthy (nextToken g)"
    and "withinRetries this 0"
  shows "stream_loop this (Inr g # pager) q f token m = ([FetchPageWith q token], Returned ())"
proof -
  have "stream_rows this m (map f (PageResult.rows g)) = ([], m, PageResult.rows g \<noteq> [])"
    using stream_rows_limited [OF assms(1), of m "map f (PageResult.rows g)"] by simp
  with assms(2) show ?thesis
    by (subst stream_loop.simps)
      (auto simp: fetchPageWithRetry_page [OF assms(3)] split: bool.splits)
qed

lemma fetchCalls_streamEvents [simp]: "fetchCalls (streamEvents q f token ps) = length ps"
  by (induction ps arbitrary: token) simp_all

lemma yielded_streamEvents [simp]: "yielded (streamEvents q f token ps) = allRows f ps"
  by (induction ps arbitrary: token) simp_all

lemma belowLimit_prefix:
  assumes "maxRows this = Some m" and "n + rowsAvailable ps < m"
  shows "belowLimit this n ps"
  using assms(2)
proof (induction ps arbitrary: n)
  case Nil
  then show ?case by simp
next
  case (Cons p ps)
  then have "belowLimit this (n + length (PageResult.rows p)) ps"
    by (simp add: add.assoc)
  with Cons.prems assms(1) show ?case
    by (simp add: belowLimit_def)
qed

text \<open>
  Claim C9, as amended. \<^verbatim>\<open>retryCount\<close> is a non-negative number \<open>r\<close> (0 when the
  option is left out). When the pages \<open>pre @ [p]\<close> all carry a token and hold exactly
  \<^verbatim>\<open>maxRows\<close> rows, \<^verbatim>\<open>stream\<close> yields all their rows and then fetches at least one
  more page, of which it yields nothing. When that next page \<open>g\<close> has a row or has no
  token, it is the only extra fetch and the generator returns. \<^verbatim>\<open>collectWith\<close> on the
  same input stops at \<open>p\<close>, one fetch earlier (given that \<open>p\<close> has a row).
\<close>

theorem stream_fetches_past_limit:
  assumes "maxRows this = Some m"
    and "allCarryToken (pre @ [p])"
    and "rowsAvailable (pre @ [p]) = m"
    and "retryCount this = Some (int r)"
  shows "length pre + 2 \<le> fetchCalls (fst (stream this (map Inr (pre @ [p]) @ rest) q f))
    \<and> yielded (fst (stream this (map Inr (pre @ [p]) @ rest) q f)) = allRows f (pre @ [p])
    \<and> (PageResult.rows g \<noteq> [] \<or> \<not> truthy (nextToken g) \<longrightarrow>
        stream this (map Inr (pre @ [p, g]) @ rest) q f =
          (Reset # streamEvents q f None (pre @ [p])
             @ [FetchPageWith q (tokenAfter None (pre @ [p]))], Returned ()))
    \<and> (PageResult.rows p \<noteq> [] \<and> onPageReturns this f 0 pre \<longrightarrow>
        fetchCalls (fst (collectWith this (map Inr (pre @ [p]) @ rest) q f)) = length pre + 1)"
proof (intro conjI impI)
  have fetches: "withinRetries this 0"
    using assms(4) by simp
  have run: "stream this (map Inr (pre @ [p]) @ pager) q f =
      prepend (Reset # streamEvents q f None (pre @ [p]))
        (stream_loop this pager q f (tokenAfter None (pre @ [p])) m)" for pager
    using stream_loop_streamed [OF assms(2) _ fetches, of 0 pager q f None] assms(1,3)
    by (simp add: stream_def)
  show "length pre + 2 \<le> fetchCalls (fst (stream this (map Inr (pre @ [p]) @ rest) q f))"
    using stream_loop_calls [OF fetches, of rest q f "tokenAfter None (pre @ [p])" m]
      run [of rest]
    by simp
  show "yielded (fst (stream this (map Inr (pre @ [p]) @ rest) q f)) = allRows f (pre @ [p])"
    using stream_loop_limit_reached [OF assms(1), of m rest q f "tokenAfter None (pre @ [p])"]
      run [of rest]
    by simp
  {
    assume g: "PageResult.rows g \<noteq> [] \<or> \<not> truthy (nextToken g)"
    have "map Inr (pre @ [p, g]) @ rest = map Inr (pre @ [p]) @ (Inr g # rest)"
      by simp
    then show "stream this (map Inr (pre @ [p, g]) @ rest) q f =
          (Reset # streamEvents q f None (pre @ [p])
             @ [FetchPageWith q (tokenAfter None (pre @ [p]))], Returned ())"
      using stream_loop_stops [OF assms(1) g fetches, of rest q f
          "tokenAfter None (pre @ [p])"]
      by (simp only: run prepend_simps append_Cons)
  }
  {
    assume c: "PageResult.rows p \<noteq> [] \<and> onPageReturns this f 0 pre"
    with assms(3) have "0 + rowsAvailable pre < m"
      by auto
    then have below: "belowLimit this 0 pre"
      by (rule belowLimit_prefix [OF assms(1)])
    from assms(2) have tok: "allCarryToken pre"
      by (simp add: allCarryToken_def)
    from assms(3) have reach: "m \<le> rowsAvailable pre + length (PageResult.rows p)"
      by simp
    show "fetchCalls (fst (collectWith this (map Inr (pre @ [p]) @ rest) q f)) = length pre + 1"
      using collectWith_truncates [OF assms(1) tok below _ reach fetches, of f rest q] c
      by simp
  }
qed


theorem stream_fetches_past_limit_witness:
  "maxRows (collectorWith (Some 2) None) = Some 2
   \<and> allCarryToken ([] @ [mkPage [1, 2] (Some ''t1'')])
   \<and> rowsAvailable ([] @ [mkPage [1, 2] (Some ''t1'')]) = 2
   \<and> retryCount (collectorWith (Some 2) None) = Some (int 0)
   \<and> length [] + 2 \<le> fetchCalls (fst (stream (collectorWith (Some 2) None)
        (map Inr ([] @ [mkPage [1, 2] (Some ''t1'')]) @ [Inr (mkPage [3] None)])
        ''query-id-123'' (\<lambda>row. row)))
   \<and> yielded (fst (stream (collectorWith (Some 2) None)
        (map Inr ([] @ [mkPage [1, 2] (Some ''t1'')]) @ [Inr (mkPage [3] None)])
        ''query-id-123'' (\<lambda>row. row))) = [1, 2]
   \<and> PageResult.rows (mkPage [3] None) \<noteq> []
   \<and> \<not> truthy (nextToken (mkPage [3] None))
   \<and> stream (collectorWith (Some 2) None)
        (map Inr ([] @ [mkPage [1, 2] (Some ''t1''), mkPage [3] None]) @ [])
        ''query-id-123'' (\<lambda>row. row)
      = ([Reset, FetchPageWith ''query-id-123'' None, Yield 1, Yield 2,
          FetchPageWith ''query-id-123'' (Some ''t1'')], Returned ())
   \<and> PageResult.rows (mkPage [1, 2] (Some ''t1'')) \<noteq> []
   \<and> onPageReturns (collectorWith (Some 2) None) (\<lambda>row. row) 0 []
   \<and> fetchCalls (fst (collectWith (collectorWith (Some 2) None)
        (map Inr ([] @ [mkPage [1, 2] (Some ''t1'')]) @ [Inr (mkPage [3] None)])
        ''query-id-123'' (\<lambda>row. row))) = length [] + 1"
proof -
  have hyps: "maxRows (collectorWith (Some 2) None) = Some 2"
    "allCarryToken ([] @ [mkPage [1, 2] (Some ''t1'')])"
    "rowsAvailable ([] @ [mkPage [1, 2] (Some ''t1'')]) = 2"
    "retryCount (collectorWith (Some 2) None) = Some (int 0)"
    by (simp_all add: allCarryToken_def truthy_def mkPage_def)
  show ?thesis
    using stream_fetches_past_limit [OF hyps, where rest = "[Inr (mkPage [3] None)]"
        and q = "''query-id-123''" and f = "\<lambda>row. row" and g = "mkPage [3] None"]
      stream_fetches_past_limit [OF hyps, where rest = "[]" and q = "''query-id-123''"
        and f = "\<lambda>row. row" and g = "mkPage [3] None"]
      hyps
    by (simp add: mkPage_def truthy_def)
qed


text \<open>
  Claim C9 as stated, with exactly one additional fetch, fails when the page after the limit
  is empty and carries a token: \<^verbatim>\<open>stream\<close> then fetches a third page, two more than the
  one page whose rows it yields.
\<close>

theorem stream_one_extra_fetch_counterexample:
  "maxRows (collectorWith (Some 2) None) = Some 2
   \<and> allCarryToken [mkPage [1, 2] (Some ''t1'')]
   \<and> rowsAvailable [mkPage [1, 2] (Some ''t1'')] = 2
   \<and> stream (collectorWith (Some 2) None)
        [Inr (mkPage [1, 2] (Some ''t1'')), Inr (mkPage [] (Some ''t2'')), Inr (mkPage [3] None)]
        ''query-id-123'' (\<lambda>row. row)
      = ([Reset, FetchPageWith ''query-id-123'' None, Yield 1, Yield 2,
          FetchPageWith ''query-id-123'' (Some ''t1''),
          FetchPageWith ''query-id-123'' (Some ''t2'')], Returned ())
   \<and> fetchCalls (fst (stream (collectorWith (Some 2) None)
        [Inr (mkPage [1, 2] (Some ''t1'')), Inr (mkPage [] (Some ''t2'')), Inr (mkPage [3] None)]
        ''query-id-123'' (\<lambda>row. row)))
      \<noteq> length [mkPage [1, 2] (Some ''t1'')] + 1"
  by code_simp

section \<open>The page without a token\<close>

text \<open>What a fetch with retries consumes: one answer per call.\<close>

lemma fetchPageWithRetry_loop_over:
  "\<not> withinRetries this attempt \<Longrightarrow>
   fetchPageWithRetry_loop this pager q f token attempt lastError
     = ([], (case lastError of None \<Rightarrow> ThrewUndefined | Some err \<Rightarrow> Threw err), pager)"
  by (subst fetchPageWithRetry_loop.simps) simp

lemma fetchPageWithRetry_loop_pending:
  "fetchPageWithRetry_loop this pager q f token attempt lastError = (evs, Pending, pager') \<Longrightarrow>
   list_all isl pager"
proof (induction this pager q f token attempt lastError arbitrary: evs
    rule: fetchPageWithRetry_loop.induct)
  case (1 this pager q f token attempt lastError)
  show ?case
  proof (cases "withinRetries this attempt")
    case False
    with "1.prems" show ?thesis
      by (simp add: fetchPageWithRetry_loop_over split: option.splits)
  next
    case True
    show ?thesis
    proof (cases pager)
      case Nil
      then show ?thesis by simp
    next
      case (Cons answer rest)
      show ?thesis
      proof (cases answer)
        case (Inr raw)
        with True Cons "1.prems" show ?thesis
          by (simp add: fetchPageWithRetry_loop_page)
      next
        case (Inl err)
        obtain evs0 where "fetchPageWithRetry_loop this rest q f token (Suc attempt) (Some err)
             = (evs0, Pending, pager')"
          using True Cons Inl "1.prems"
          by (auto simp: fetchPageWithRetry_loop_error split: prod.splits)
        then have "list_all isl rest"
          using "1.IH" True Cons Inl by fastforce
        with Cons Inl show ?thesis by simp
      qed
    qed
  qed
qed

lemma fetchPageWithRetry_loop_returned:
  "fetchPageWithRetry_loop this pager q f token attempt lastError
     = (evs, Returned page, pager') \<Longrightarrow>
   \<exists>consumed raw. pager = consumed @ Inr raw # pager' \<and> page = parsePage f raw"
proof (induction this pager q f token attempt lastError arbitrary: evs
    rule: fetchPageWithRetry_loop.induct)
  case (1 this pager q f token attempt lastError)
  show ?case
  proof (cases "withinRetries this attempt")
    case False
    with "1.prems" show ?thesis
      by (simp add: fetchPageWithRetry_loop_over split: option.splits)
  next
    case True
    show ?thesis
    proof (cases pager)
      case Nil
      with True "1.prems" show ?thesis
        by (simp add: fetchPageWithRetry_loop_Nil)
    next
      case (Cons answer rest)
      show ?thesis
      proof (cases answer)
        case (Inr raw)
        with True Cons "1.prems" have "pager = [] @ Inr raw # pager' \<and> page = parsePage f raw"
          by (simp add: fetchPageWithRetry_loop_page)
        then show ?thesis by blast
      next
        case (Inl err)
        obtain evs0 where "fetchPageWithRetry_loop this rest q f token (Suc attempt) (Some err)
             = (evs0, Returned page, pager')"
          using True Cons Inl "1.prems"
          by (auto simp: fetchPageWithRetry_loop_error split: prod.splits)
        then have "\<exists>consumed raw. rest = consumed @ Inr raw # pager' \<and> page = parsePage f raw"
          using "1.IH" True Cons Inl by fastforce
        then obtain consumed raw where "rest = consumed @ Inr raw # pager'"
          "page = parsePage f raw"
          by blast
        with Cons have "pager = (answer # consumed) @ Inr raw # pager' \<and> page = parsePage f raw"
          by simp
        then show ?thesis by blast
      qed
    qed
  qed
qed

lemma fetchPageWithRetry_loop_count:
  "fetchPageWithRetry_loop this pager q f token attempt lastError = (evs, out, pager') \<Longrightarrow>
   out \<noteq> Pending \<Longrightarrow> fetchCalls evs + length pager' = length pager"
proof (induction this pager q f token attempt lastError arbitrary: evs
    rule: fetchPageWithRetry_loop.induct)
  case (1 this pager q f token attempt lastError)
  show ?case
  proof (cases "withinRetries this attempt")
    case False
    with "1.prems" show ?thesis
      by (auto simp: fetchPageWithRetry_loop_over split: option.splits)
  next
    case True
    show ?thesis
    proof (cases pager)
      case Nil
      with True "1.prems" show ?thesis
        by (simp add: fetchPageWithRetry_loop_Nil)
    next
      case (Cons answer rest)
      show ?thesis
      proof (cases answer)
        case (Inr raw)
        with True Cons "1.prems" show ?thesis
          by (auto simp: fetchPageWithRetry_loop_page)
      next
        case (Inl err)
        obtain evs0 where rec:
          "fetchPageWithRetry_loop this rest q f token (Suc attempt) (Some err)
             = (evs0, out, pager')"
          and evs: "fetchCalls evs = Suc (fetchCalls evs0)"
          using True Cons Inl "1.prems"
          by (auto simp: fetchPageWithRetry_loop_error split: prod.splits)
        have "fetchCalls evs0 + length pager' = length rest"
          using "1.IH" True Cons Inl rec "1.prems"(2) by fastforce
        with Cons evs show ?thesis by simp
      qed
    qed
  qed
qed

text \<open>Answers that a fetch does not reach do not change it.\<close>

lemma fetchPageWithRetry_loop_append:
  "fetchPageWithRetry_loop this pager q f token attempt lastError = (evs, out, pager') \<Longrightarrow>
   out \<noteq> Pending \<Longrightarrow>
   fetchPageWithRetry_loop this (pager @ rest) q f token attempt lastError
     = (evs, out, pager' @ rest)"
proof (induction this pager q f token attempt lastError arbitrary: evs
    rule: fetchPageWithRetry_loop.induct)
  case (1 this pager q f token attempt lastError)
  show ?case
  proof (cases "withinRetries this attempt")
    case False
    with "1.prems" show ?thesis
      by (auto simp: fetchPageWithRetry_loop_over split: option.splits)
  next
    case True
    show ?thesis
    proof (cases pager)
      case Nil
      with True "1.prems" show ?thesis
        by (simp add: fetchPageWithRetry_loop_Nil)
    next
      case (Cons answer rest')
      show ?thesis
      proof (cases answer)
        case (Inr raw)
        with True Cons "1.prems" show ?thesis
          by (simp add: fetchPageWithRetry_loop_page)
      next
        case (Inl err)
        obtain evs0 where rec:
          "fetchPageWithRetry_loop this rest' q f token (Suc attempt) (Some err)
             = (evs0, out, pager')"
          and evs: "evs = FetchPageWith q token
             # (if retryRemains this attempt then [Sleep (retryDelayMs this)] else []) @ evs0"
          using True Cons Inl "1.prems"
          by (auto simp: fetchPageWithRetry_loop_error split: prod.splits)
        have "fetchPageWithRetry_loop this (rest' @ rest) q f token (Suc attempt) (Some err)
            = (evs0, out, pager' @ rest)"
          using "1.IH" True Cons Inl rec "1.prems"(2) by fastforce
        with True Cons Inl evs show ?thesis
          by (simp add: fetchPageWithRetry_loop_error)
      qed
    qed
  qed
qed


lemma fetchPageWithRetry_at_page:
  assumes "fetchPageWithRetry this (pre @ [Inr p]) q f token = (evs, out, pager')"
  shows "out \<noteq> Pending"
    and "fetchPageWithRetry this (pre @ Inr p # rest) q f token = (evs, out, pager' @ rest)"
    and "fetchCalls evs + length pager' = length pre + 1"
    and "out = Returned page \<Longrightarrow>
      (pager' = [] \<and> page = parsePage f p)
      \<or> (\<exists>pre'. pager' = pre' @ [Inr p] \<and> length pre' < length pre)"
proof -
  show pending: "out \<noteq> Pending"
  proof
    assume "out = Pending"
    with assms have "list_all isl (pre @ [Inr p])"
      unfolding fetchPageWithRetry_def by (auto dest: fetchPageWithRetry_loop_pending)
    then show False by simp
  qed
  from fetchPageWithRetry_loop_append [OF assms [unfolded fetchPageWithRetry_def] pending, of rest]
  show "fetchPageWithRetry this (pre @ Inr p # rest) q f token = (evs, out, pager' @ rest)"
    by (simp add: fetchPageWithRetry_def)
  from fetchPageWithRetry_loop_count [OF assms [unfolded fetchPageWithRetry_def] pending]
  show count: "fetchCalls evs + length pager' = length pre + 1"
    by simp
  assume "out = Returned page"
  with assms obtain consumed raw where split: "pre @ [Inr p] = consumed @ Inr raw # pager'"
    and page: "page = parsePage f raw"
    unfolding fetchPageWithRetry_def by (blast dest: fetchPageWithRetry_loop_returned)
  show "(pager' = [] \<and> page = parsePage f p)
      \<or> (\<exists>pre'. pager' = pre' @ [Inr p] \<and> length pre' < length pre)"
  proof (cases "pager' = []")
    case True
    with split page show ?thesis by simp
  next
    case False
    then have "pager' = butlast pager' @ [last pager']"
      by simp
    moreover from split False have "last pager' = Inr p"
      by (metis last_appendR last_snoc list.distinct(1) last_ConsR)
    ultimately have shape: "pager' = butlast pager' @ [Inr p]"
      by simp
    from count have "length pager' \<le> length pre + 1" by simp
    moreover from assms \<open>out = Returned page\<close> have "length pager' < length (pre @ [Inr p])"
      by (auto dest: fetchPageWithRetry_shorter)
    ultimately have "length pager' - 1 < length pre"
      using False by (cases pager') auto
    then have "length (butlast pager') < length pre"
      by simp
    with shape show ?thesis by blast
  qed
qed

lemma fetchCalls_callOnPage:
  "callOnPage this page n = (evs, r) \<Longrightarrow> fetchCalls evs = 0"
  by (auto simp: callOnPage_def split: option.splits)

lemma collectWith_loop_ends:
  assumes "\<not> truthy (nextToken p)"
  shows "snd (collectWith_loop this (pre @ [Inr p]) q f collected token n) \<noteq> Pending
    \<and> collectWith_loop this (pre @ Inr p # rest) q f collected token n
        = collectWith_loop this (pre @ [Inr p]) q f collected token n
    \<and> fetchCalls (fst (collectWith_loop this (pre @ [Inr p]) q f collected token n))
        \<le> length pre + 1"
proof (induction "length pre" arbitrary: pre collected token n rule: less_induct)
  case less
  obtain evs out pager' where fetch:
    "fetchPageWithRetry this (pre @ [Inr p]) q f token = (evs, out, pager')"
    by (metis prod_cases3)
  note at = fetchPageWithRetry_at_page [OF fetch]
  note here = collectWith_loop.simps [of this "pre @ [Inr p]" q f collected token n]
  note there = collectWith_loop.simps [of this "pre @ Inr p # rest" q f collected token n]
  show ?case
  proof (cases out)
    case (Returned page)
    from at(4) [OF Returned] show ?thesis
    proof
      assume last: "pager' = [] \<and> page = parsePage f p"
      with assms at(3) show ?thesis
        by (subst here, subst here, subst there, subst here)
          (auto simp: fetch at(2) Returned dest: fetchCalls_callOnPage
            split: option.splits prod.splits)
    next
      assume "\<exists>pre'. pager' = pre' @ [Inr p] \<and> length pre' < length pre"
      then obtain pre' where pager': "pager' = pre' @ [Inr p]" and shorter: "length pre' < length pre"
        by blast
      note ih = less.hyps [OF shorter]
      from at(3) pager' have count: "fetchCalls evs + length pre' = length pre"
        by simp
      have bound: "fetchCalls (fst (collectWith_loop this (pre' @ [Inr p]) q f
          (collected @ PageResult.rows page) (nextToken page) (Suc n))) \<le> length pre' + 1"
        using ih by blast
      show ?thesis
        using count bound
        by (subst here, subst here, subst there, subst here)
          (auto simp: fetch at(2) Returned pager' ih dest: fetchCalls_callOnPage
            split: option.splits prod.splits)
    qed
  next
    case Pending
    with at(1) show ?thesis by simp
  next
    case (Threw err)
    with at(3) show ?thesis
      by (subst here, subst here, subst there, subst here) (simp add: fetch at(2))
  next
    case ThrewUndefined
    with at(3) show ?thesis
      by (subst here, subst here, subst there, subst here) (simp add: fetch at(2))
  qed
qed


lemma fetchCalls_stream_rows:
  "fetchCalls (fst (stream_rows this count rs)) = 0"
proof (induction rs arbitrary: count)
  case Nil
  then show ?case by simp
next
  case (Cons row rs)
  obtain evs r where "stream_rows this (Suc count) rs = (evs, r)"
    by (cases "stream_rows this (Suc count) rs") auto
  with Cons [of "Suc count"] show ?case by simp
qed

lemma fetchCalls_stream_rows':
  "stream_rows this count rs = (evs, count', returned) \<Longrightarrow> fetchCalls evs = 0"
  using fetchCalls_stream_rows [of this count rs] by simp

lemma stream_loop_ends:
  assumes "\<not> truthy (nextToken p)"
  shows "snd (stream_loop this (pre @ [Inr p]) q f token count) \<noteq> Pending
    \<and> stream_loop this (pre @ Inr p # rest) q f token count
        = stream_loop this (pre @ [Inr p]) q f token count
    \<and> fetchCalls (fst (stream_loop this (pre @ [Inr p]) q f token count)) \<le> length pre + 1"
proof (induction "length pre" arbitrary: pre token count rule: less_induct)
  case less
  obtain evs out pager' where fetch:
    "fetchPageWithRetry this (pre @ [Inr p]) q f token = (evs, out, pager')"
    by (metis prod_cases3)
  note at = fetchPageWithRetry_at_page [OF fetch]
  note here = stream_loop.simps [of this "pre @ [Inr p]" q f token count]
  note there = stream_loop.simps [of this "pre @ Inr p # rest" q f token count]
  show ?case
  proof (cases out)
    case (Returned page)
    from at(4) [OF Returned] show ?thesis
    proof
      assume last: "pager' = [] \<and> page = parsePage f p"
      with assms at(3) show ?thesis
        by (subst here, subst here, subst there, subst here)
          (auto simp: fetch at(2) Returned dest: fetchCalls_stream_rows'
            split: bool.splits prod.splits)
    next
      assume "\<exists>pre'. pager' = pre' @ [Inr p] \<and> length pre' < length pre"
      then obtain pre' where pager': "pager' = pre' @ [Inr p]" and shorter: "length pre' < length pre"
        by blast
      note ih = less.hyps [OF shorter]
      from at(3) pager' have count: "fetchCalls evs + length pre' = length pre"
        by simp
      obtain yields count' returned where rows:
        "stream_rows this count (PageResult.rows page) = (yields, count', returned)"
        by (metis prod_cases3)
      have quiet: "fetchCalls yields = 0"
        using rows by (rule fetchCalls_stream_rows')
      have bound: "fetchCalls (fst (stream_loop this (pre' @ [Inr p]) q f (nextToken page)
          count')) \<le> length pre' + 1"
        using ih by blast
      show ?thesis
        using count bound quiet
        by (subst here, subst here, subst there, subst here)
          (auto simp: fetch at(2) Returned pager' ih rows split: bool.splits)
    qed
  next
    case Pending
    with at(1) show ?thesis by simp
  next
    case (Threw err)
    with at(3) show ?thesis
      by (subst here, subst here, subst there, subst here) (simp add: fetch at(2))
  next
    case ThrewUndefined
    with at(3) show ?thesis
      by (subst here, subst here, subst there, subst here) (simp add: fetch at(2))
  qed
qed

lemma processBatches_loop_ends:
  assumes "\<not> truthy (nextToken p)"
  shows "snd (processBatches_loop this (pre @ [Inr p]) q f batchProcessor token k sofar) \<noteq> Pending
    \<and> processBatches_loop this (pre @ Inr p # rest) q f batchProcessor token k sofar
        = processBatches_loop this (pre @ [Inr p]) q f batchProcessor token k sofar
    \<and> fetchCalls (fst (processBatches_loop this (pre @ [Inr p]) q f batchProcessor token k sofar))
        \<le> length pre + 1"
proof (induction "length pre" arbitrary: pre token k sofar rule: less_induct)
  case less
  obtain evs out pager' where fetch:
    "fetchPageWithRetry this (pre @ [Inr p]) q f token = (evs, out, pager')"
    by (metis prod_cases3)
  note at = fetchPageWithRetry_at_page [OF fetch]
  note here = processBatches_loop.simps [of this "pre @ [Inr p]" q f batchProcessor token k sofar]
  note there = processBatches_loop.simps
    [of this "pre @ Inr p # rest" q f batchProcessor token k sofar]
  show ?case
  proof (cases out)
    case (Returned page)
    from at(4) [OF Returned] show ?thesis
    proof
      assume last: "pager' = [] \<and> page = parsePage f p"
      with assms at(3) show ?thesis
        by (subst here, subst here, subst there, subst here)
          (auto simp: fetch at(2) Returned split: option.splits)
    next
      assume "\<exists>pre'. pager' = pre' @ [Inr p] \<and> length pre' < length pre"
      then obtain pre' where pager': "pager' = pre' @ [Inr p]" and shorter: "length pre' < length pre"
        by blast
      note ih = less.hyps [OF shorter]
      from at(3) pager' have count: "fetchCalls evs + length pre' = length pre"
        by simp
      have bound: "fetchCalls (fst (processBatches_loop this (pre' @ [Inr p]) q f batchProcessor
          (nextToken page) (Suc k) (sofar + length (PageResult.rows page)))) \<le> length pre' + 1"
        using ih by blast
      show ?thesis
        using count bound
        by (subst here, subst here, subst there, subst here)
          (auto simp: fetch at(2) Returned pager' ih split: option.splits)
    qed
  next
    case Pending
    with at(1) show ?thesis by simp
  next
    case (Threw err)
    with at(3) show ?thesis
      by (subst here, subst here, subst there, subst here) (simp add: fetch at(2))
  next
    case ThrewUndefined
    with at(3) show ?thesis
      by (subst here, subst here, subst there, subst here) (simp add: fetch at(2))
  qed
qed

text \<open>
  Claim C8. In \<^verbatim>\<open>collectWith\<close>, \<^verbatim>\<open>stream\<close> and \<^verbatim>\<open>processBatches\<close>, for every
  collector (any \<^verbatim>\<open>maxRows\<close>, set or not) and every pager behaviour in which some answer
  is a page \<open>p\<close> without a continuation token: the run does not depend on what the pager
  would answer after \<open>p\<close>, it ends without waiting for a further answer, and it makes no
  more fetch calls than there are answers up to and including \<open>p\<close>. So once \<open>p\<close> has
  been fetched the loop is over and nothing is fetched after it.
\<close>

theorem no_fetch_after_last_page:
  assumes "\<not> truthy (nextToken p)"
  shows "collectWith this (pre @ Inr p # rest) q f = collectWith this (pre @ [Inr p]) q f
    \<and> snd (collectWith this (pre @ [Inr p]) q f) \<noteq> Pending
    \<and> fetchCalls (fst (collectWith this (pre @ Inr p # rest) q f)) \<le> length pre + 1
    \<and> stream this (pre @ Inr p # rest) q f = stream this (pre @ [Inr p]) q f
    \<and> snd (stream this (pre @ [Inr p]) q f) \<noteq> Pending
    \<and> fetchCalls (fst (stream this (pre @ Inr p # rest) q f)) \<le> length pre + 1
    \<and> processBatches this (pre @ Inr p # rest) q f batchProcessor
        = processBatches this (pre @ [Inr p]) q f batchProcessor
    \<and> snd (processBatches this (pre @ [Inr p]) q f batchProcessor) \<noteq> Pending
    \<and> fetchCalls (fst (processBatches this (pre @ Inr p # rest) q f batchProcessor))
        \<le> length pre + 1"
  using collectWith_loop_ends [OF assms, of this pre q f "[]" None 0 rest]
    stream_loop_ends [OF assms, of this pre q f None 0 rest]
    processBatches_loop_ends [OF assms, of this pre q f batchProcessor None 0 0 rest]
  by (simp add: collectWith_def stream_def processBatches_def)


theorem no_fetch_after_last_page_witness:
  "\<not> truthy (nextToken (mkPage [2 :: nat] None))
   \<and> collectWith (collectorWith (Some 10) None)
        ([Inr (mkPage [1] (Some ''t''))] @ Inr (mkPage [2] None) # [Inr (mkPage [3] None)])
        ''query-id-123'' (\<lambda>row. row)
      = collectWith (collectorWith (Some 10) None)
        ([Inr (mkPage [1] (Some ''t''))] @ [Inr (mkPage [2] None)]) ''query-id-123'' (\<lambda>row. row)
   \<and> snd (collectWith (collectorWith (Some 10) None)
        ([Inr (mkPage [1] (Some ''t''))] @ [Inr (mkPage [2] None)]) ''query-id-123''
        (\<lambda>row. row)) \<noteq> Pending
   \<and> fetchCalls (fst (collectWith (collectorWith (Some 10) None)
        ([Inr (mkPage [1] (Some ''t''))] @ Inr (mkPage [2] None) # [Inr (mkPage [3] None)])
        ''query-id-123'' (\<lambda>row. row)))
      \<le> length [Inr (mkPage [1 :: nat] (Some ''t'')) :: string + nat PageResult] + 1
   \<and> stream (collectorWith (Some 10) None)
        ([Inr (mkPage [1] (Some ''t''))] @ Inr (mkPage [2] None) # [Inr (mkPage [3] None)])
        ''query-id-123'' (\<lambda>row. row)
      = stream (collectorWith (Some 10) None)
        ([Inr (mkPage [1] (Some ''t''))] @ [Inr (mkPage [2] None)]) ''query-id-123'' (\<lambda>row. row)
   \<and> snd (stream (collectorWith (Some 10) None)
        ([Inr (mkPage [1] (Some ''t''))] @ [Inr (mkPage [2] None)]) ''query-id-123''
        (\<lambda>row. row)) \<noteq> Pending
   \<and> fetchCalls (fst (stream (collectorWith (Some 10) None)
        ([Inr (mkPage [1] (Some ''t''))] @ Inr (mkPage [2] None) # [Inr (mkPage [3] None)])
        ''query-id-123'' (\<lambda>row. row)))
      \<le> length [Inr (mkPage [1 :: nat] (Some ''t'')) :: string + nat PageResult] + 1
   \<and> processBatches (collectorWith (Some 10) None)
        ([Inr (mkPage [1] (Some ''t''))] @ Inr (mkPage [2] None) # [Inr (mkPage [3] None)])
        ''query-id-123'' (\<lambda>row. row) (\<lambda>rs i. None)
      = processBatches (collectorWith (Some 10) None)
        ([Inr (mkPage [1] (Some ''t''))] @ [Inr (mkPage [2] None)]) ''query-id-123''
        (\<lambda>row. row) (\<lambda>rs i. None)
   \<and> snd (processBatches (collectorWith (Some 10) None)
        ([Inr (mkPage [1] (Some ''t''))] @ [Inr (mkPage [2] None)]) ''query-id-123''
        (\<lambda>row. row) (\<lambda>rs i. None)) \<noteq> Pending
   \<and> fetchCalls (fst (processBatches (collectorWith (Some 10) None)
        ([Inr (mkPage [1] (Some ''t''))] @ Inr (mkPage [2] None) # [Inr (mkPage [3] None)])
        ''query-id-123'' (\<lambda>row. row) (\<lambda>rs i. None)))
      \<le> length [Inr (mkPage [1 :: nat] (Some ''t'')) :: string + nat PageResult] + 1"
proof -
  have last: "\<not> truthy (nextToken (mkPage [2 :: nat] None))"
    by (simp add: truthy_def mkPage_def)
  show ?thesis
    using no_fetch_after_last_page [OF last, of "collectorWith (Some 10) None"
        "[Inr (mkPage [1] (Some ''t''))]" "[Inr (mkPage [3] None)]" "''query-id-123''"
        "\<lambda>row. row" "\<lambda>rs i. None"] last
    by blast
qed

end
